theory Spec2Isabelle
  imports Complex_Main
begin

section \<open>Python values used by pagerank.py\<close>

text \<open>
  The exceptions the three functions of \<^verbatim>\<open>pagerank.py\<close> can raise. Floats are
  modelled as exact reals, the reading the specification itself takes
  ("in exact arithmetic"), with one exception: the cumulative sum of line 105, whose
  rounding decides whether the scan of lines 104-108 finds a page, takes its addition
  as a parameter.
\<close>

datatype error = KeyError | ZeroDivisionError | IndexError

type_synonym page = string

text \<open>
  A Python \<^verbatim>\<open>dict\<close> keeps its keys in insertion order; it is an association list
  whose keys are distinct. A Python \<^verbatim>\<open>set\<close> of pages is the list of its members in
  the order the interpreter iterates it, without duplicates.
\<close>

type_synonym 'v dict = "(page \<times> 'v) list"

type_synonym corpus = "page list dict"

definition keys :: "'v dict \<Rightarrow> page list" where
  "keys d = map fst d"

definition vals :: "'v dict \<Rightarrow> 'v list" where
  "vals d = map snd d"

text \<open>\<^verbatim>\<open>d[k]\<close>: raises KeyError on a missing key.\<close>

fun getitem :: "'v dict \<Rightarrow> page \<Rightarrow> error + 'v" where
  "getitem [] k = Inl KeyError"
| "getitem ((k', v) # d) k = (if k' = k then Inr v else getitem d k)"

text \<open>\<^verbatim>\<open>d[k] = v\<close>: overwrites in place, or appends a new key at the end.\<close>

fun setitem :: "'v dict \<Rightarrow> page \<Rightarrow> 'v \<Rightarrow> 'v dict" where
  "setitem [] k v = [(k, v)]"
| "setitem ((k', v') # d) k v = (if k' = k then (k, v) # d else (k', v') # setitem d k v)"

text \<open>\<^verbatim>\<open>d[k] += x\<close>: reads \<^verbatim>\<open>d[k]\<close> first (KeyError when absent), then stores.\<close>

definition iadd :: "('v::plus) dict \<Rightarrow> page \<Rightarrow> 'v \<Rightarrow> error + 'v dict" where
  "iadd d k x = (case getitem d k of Inl e \<Rightarrow> Inl e | Inr v \<Rightarrow> Inr (setitem d k (v + x)))"

text \<open>\<^verbatim>\<open>a / b\<close> on numbers: raises ZeroDivisionError when \<^verbatim>\<open>b\<close> is zero.\<close>

definition truediv :: "real \<Rightarrow> real \<Rightarrow> error + real" where
  "truediv a b = (if b = 0 then Inl ZeroDivisionError else Inr (a / b))"

text \<open>
  The addition of Python floats. A float is an IEEE 754 double: 53 significant bits,
  binary exponents from -1022 to 1023, every result rounded to the nearest double, a
  tie to the double whose last bit is even. \<open>round_even\<close> rounds to the nearest
  integer, ties to the even one. \<open>ulp x\<close> is the spacing of the doubles at \<open>x\<close>,
  that is \<open>2 ^ (e - 52)\<close> when \<open>2 ^ e \<le> \<bar>x\<bar> < 2 ^ (e + 1)\<close>: below \<open>1\<close> it is
  found by halving from \<open>1 / 2 ^ 53\<close>, at most down to the spacing \<open>1 / 2 ^ 1074\<close>
  of the subnormal doubles, from \<open>1\<close> on by doubling from \<open>1 / 2 ^ 52\<close>, at most up
  to \<open>2 ^ 971\<close> (overflow to infinity is left out). \<open>float_of x\<close> is the double
  nearest to \<open>x\<close>, and \<open>float_add a b\<close> the rounded sum of the doubles nearest to
  \<open>a\<close> and \<open>b\<close>: on doubles it is Python's \<^verbatim>\<open>a + b\<close>.
\<close>

definition round_even :: "real \<Rightarrow> int" where
  "round_even x = (let n = \<lfloor>x\<rfloor> in
     if x - of_int n < 1 / 2 then n
     else if 1 / 2 < x - of_int n then n + 1
     else if even n then n else n + 1)"

fun ulp_down :: "nat \<Rightarrow> real \<Rightarrow> real \<Rightarrow> real" where
  "ulp_down 0 u x = u"
| "ulp_down (Suc n) u x = (if u * 2 ^ 52 \<le> \<bar>x\<bar> then u else ulp_down n (u / 2) x)"

fun ulp_up :: "nat \<Rightarrow> real \<Rightarrow> real \<Rightarrow> real" where
  "ulp_up 0 u x = u"
| "ulp_up (Suc n) u x = (if \<bar>x\<bar> < u * 2 ^ 53 then u else ulp_up n (u * 2) x)"

definition ulp :: "real \<Rightarrow> real" where
  "ulp x = (if \<bar>x\<bar> < 1 then ulp_down 1021 (1 / 2 ^ 53) x else ulp_up 1023 (1 / 2 ^ 52) x)"

definition float_of :: "real \<Rightarrow> real" where
  "float_of x = of_int (round_even (x / ulp x)) * ulp x"

definition float_add :: "real \<Rightarrow> real \<Rightarrow> real" where
  "float_add a b = float_of (float_of a + float_of b)"

text \<open>A \<^verbatim>\<open>for\<close> loop whose body may raise: the first exception ends the loop.\<close>

fun for_loop :: "('a \<Rightarrow> 's \<Rightarrow> error + 's) \<Rightarrow> 'a list \<Rightarrow> 's \<Rightarrow> error + 's" where
  "for_loop body [] s = Inr s"
| "for_loop body (x # xs) s =
     (case body x s of Inl e \<Rightarrow> Inl e | Inr s' \<Rightarrow> for_loop body xs s')"

text \<open>
  \<^verbatim>\<open>d = dict(); for page_name in corpus: d[page_name] = v\<close> (lines 60-62, 91-93,
  133-134).
\<close>

definition init_dict :: "'w dict \<Rightarrow> 'v \<Rightarrow> 'v dict" where
  "init_dict corpus v = fold (\<lambda>page_name d. setitem d page_name v) (keys corpus) []"

section \<open>The transition model (lines 51-77)\<close>

definition transition_model :: "corpus \<Rightarrow> page \<Rightarrow> real \<Rightarrow> error + real dict" where
  "transition_model corpus page damping_factor =
     (let probability = init_dict corpus 0 in
      (case getitem corpus page of Inl e \<Rightarrow> Inl e
       | Inr links \<Rightarrow>
          (if length links = 0 then
             for_loop (\<lambda>page_name probability.
                 (case getitem probability page_name of Inl e \<Rightarrow> Inl e
                  | Inr v \<Rightarrow>
                     (case truediv 1 (real (length corpus)) of Inl e \<Rightarrow> Inl e
                      | Inr x \<Rightarrow> Inr (setitem probability page_name (v + x)))))
               (keys probability) probability
           else
             (case truediv damping_factor (real (length links)) of Inl e \<Rightarrow> Inl e
              | Inr prob_link \<Rightarrow>
                 (case for_loop (\<lambda>page_name probability. iadd probability page_name prob_link)
                         links probability of
                    Inl e \<Rightarrow> Inl e
                  | Inr probability \<Rightarrow>
                     (case truediv (1 - damping_factor) (real (length probability)) of
                        Inl e \<Rightarrow> Inl e
                      | Inr prob_random \<Rightarrow>
                         for_loop (\<lambda>page_name probability. iadd probability page_name prob_random)
                           (keys probability) probability))))))"

section \<open>The sampling estimator (lines 82-115)\<close>

text \<open>
  The process-wide random source is made explicit. \<^verbatim>\<open>random.choice(seq)\<close> raises
  IndexError on an empty sequence and otherwise returns the element at an index below
  \<^verbatim>\<open>len(seq)\<close>; the natural number \<open>r\<close> is the entropy it consumes. The \<open>i\<close>-th
  call of \<^verbatim>\<open>random.random()\<close> returns \<open>rand i\<close>.
\<close>

definition choice :: "'a list \<Rightarrow> nat \<Rightarrow> error + 'a" where
  "choice seq r = (if seq = [] then Inl IndexError else Inr (seq ! (r mod length seq)))"

text \<open>
  Lines 102-108: the scan over \<^verbatim>\<open>weight.items()\<close>; \<open>Some\<close> is the page at which
  the loop breaks, \<open>None\<close> a scan that ran to its end. Whether the scan runs to its
  end depends on how the cumulative sum of line 105 is rounded, so the addition of that
  line is the parameter \<open>fadd\<close>: the addition of Python floats \<open>float_add\<close> is one
  instance, the exact sum \<open>(+)\<close> another.
\<close>

fun scan :: "(real \<Rightarrow> real \<Rightarrow> real) \<Rightarrow> real dict \<Rightarrow> real \<Rightarrow> real \<Rightarrow> page option" where
  "scan fadd [] prob rand_choice = None"
| "scan fadd ((page_name, probability) # items) prob rand_choice =
     (let prob = fadd prob probability in
      if prob \<ge> rand_choice then Some page_name else scan fadd items prob rand_choice)"

text \<open>Lines 99-110: one iteration of the sampling loop on \<open>(curr_page, pagerank)\<close>.\<close>

definition sample_step ::
  "(real \<Rightarrow> real \<Rightarrow> real) \<Rightarrow> corpus \<Rightarrow> real \<Rightarrow> (nat \<Rightarrow> real) \<Rightarrow> nat \<Rightarrow> page \<times> int dict \<Rightarrow>
   error + page \<times> int dict" where
  "sample_step fadd corpus damping_factor rand i st =
     (case st of (curr_page, pagerank) \<Rightarrow>
        (case transition_model corpus curr_page damping_factor of Inl e \<Rightarrow> Inl e
         | Inr weight \<Rightarrow>
            (let rand_choice = rand i;
                 curr_page = (case scan fadd weight 0 rand_choice of
                                Some page_name \<Rightarrow> page_name | None \<Rightarrow> curr_page)
             in (case iadd pagerank curr_page 1 of Inl e \<Rightarrow> Inl e
                 | Inr pagerank \<Rightarrow> Inr (curr_page, pagerank)))))"

text \<open>Lines 91-96: the counters at zero, then the random start page is counted.\<close>

definition sample_init :: "corpus \<Rightarrow> nat \<Rightarrow> error + page \<times> int dict" where
  "sample_init corpus r =
     (let pagerank = init_dict corpus 0 in
      (case choice (keys pagerank) r of Inl e \<Rightarrow> Inl e
       | Inr curr_page \<Rightarrow>
          (case iadd pagerank curr_page 1 of Inl e \<Rightarrow> Inl e
           | Inr pagerank \<Rightarrow> Inr (curr_page, pagerank))))"

text \<open>
  Lines 91-110: the visit counters after the walk, before they are divided.
  \<^verbatim>\<open>range(n-1)\<close> is empty when \<^verbatim>\<open>n - 1\<close> is not positive.
\<close>

definition sample_counts ::
  "(real \<Rightarrow> real \<Rightarrow> real) \<Rightarrow> corpus \<Rightarrow> real \<Rightarrow> int \<Rightarrow> nat \<Rightarrow> (nat \<Rightarrow> real) \<Rightarrow>
   error + page \<times> int dict" where
  "sample_counts fadd corpus damping_factor n r rand =
     (case sample_init corpus r of Inl e \<Rightarrow> Inl e
      | Inr st \<Rightarrow>
         for_loop (sample_step fadd corpus damping_factor rand) [0..<nat (n - 1)] st)"

text \<open>
  Lines 112-113 overwrite every count by \<^verbatim>\<open>count / n\<close> in place, so the keys keep
  their order; the division raises when \<^verbatim>\<open>n\<close> is zero.
\<close>

fun divide_counts :: "int dict \<Rightarrow> int \<Rightarrow> error + real dict" where
  "divide_counts [] n = Inr []"
| "divide_counts ((page_name, count) # items) n =
     (case truediv (real_of_int count) (real_of_int n) of Inl e \<Rightarrow> Inl e
      | Inr v \<Rightarrow>
         (case divide_counts items n of Inl e \<Rightarrow> Inl e
          | Inr rest \<Rightarrow> Inr ((page_name, v) # rest)))"

definition sample_pagerank ::
  "(real \<Rightarrow> real \<Rightarrow> real) \<Rightarrow> corpus \<Rightarrow> real \<Rightarrow> int \<Rightarrow> nat \<Rightarrow> (nat \<Rightarrow> real) \<Rightarrow>
   error + real dict" where
  "sample_pagerank fadd corpus damping_factor n r rand =
     (case sample_counts fadd corpus damping_factor n r rand of Inl e \<Rightarrow> Inl e
      | Inr (curr_page, pagerank) \<Rightarrow> divide_counts pagerank n)"

text \<open>A random source whose every call of \<^verbatim>\<open>random.random()\<close> returns \<open>x\<close>.\<close>

definition fixed_draws :: "real \<Rightarrow> nat \<Rightarrow> real" where
  "fixed_draws x i = x"

section \<open>The iterative solver (lines 120-162)\<close>

text \<open>Lines 143-148: the inner loop, accumulating \<^verbatim>\<open>prob_choice\<close> for one page.\<close>

definition prob_choice :: "corpus \<Rightarrow> real dict \<Rightarrow> real \<Rightarrow> page \<Rightarrow> error + real" where
  "prob_choice corpus pagerank prob_all page =
     for_loop (\<lambda>other_page prob_choice.
         (case getitem corpus other_page of Inl e \<Rightarrow> Inl e
          | Inr links \<Rightarrow>
             (if length links = 0 then
                (case getitem pagerank other_page of Inl e \<Rightarrow> Inl e
                 | Inr rank \<Rightarrow> Inr (prob_choice + rank * prob_all))
              else if page \<in> set links then
                (case getitem pagerank other_page of Inl e \<Rightarrow> Inl e
                 | Inr rank \<Rightarrow>
                    (case truediv rank (real (length links)) of Inl e \<Rightarrow> Inl e
                     | Inr c \<Rightarrow> Inr (prob_choice + c)))
              else Inr prob_choice)))
       (keys corpus) 0"

text \<open>
  Lines 142-150: the new rank of every page, computed from \<^verbatim>\<open>pagerank\<close> and stored
  in \<^verbatim>\<open>new_pagerank\<close>, a different dictionary. Line 135 gave \<^verbatim>\<open>new_pagerank\<close>
  the keys of the corpus, in the order of the corpus, with \<^verbatim>\<open>None\<close> as value, and
  every round overwrites each of them before anything reads it: the loop below stores
  the same keys in the same order into a fresh dictionary.
\<close>

definition update_ranks ::
  "corpus \<Rightarrow> real \<Rightarrow> real \<Rightarrow> real \<Rightarrow> real dict \<Rightarrow> error + real dict" where
  "update_ranks corpus damping_factor prob_random prob_all pagerank =
     for_loop (\<lambda>page new_pagerank.
         (case prob_choice corpus pagerank prob_all page of Inl e \<Rightarrow> Inl e
          | Inr pc \<Rightarrow> Inr (setitem new_pagerank page (prob_random + damping_factor * pc))))
       (keys corpus) []"

text \<open>Lines 152-154: every new rank is divided by the sum of the new ranks.\<close>

definition normalize :: "real dict \<Rightarrow> error + real dict" where
  "normalize new_pagerank =
     (let total_prob = sum_list (vals new_pagerank) in
      for_loop (\<lambda>(page, rank) new_pagerank.
          (case truediv rank total_prob of Inl e \<Rightarrow> Inl e
           | Inr v \<Rightarrow> Inr (setitem new_pagerank page v)))
        new_pagerank new_pagerank)"

text \<open>Lines 156-158, started from \<^verbatim>\<open>max_change = 0\<close> of line 140.\<close>

definition max_change :: "corpus \<Rightarrow> real dict \<Rightarrow> real dict \<Rightarrow> error + real" where
  "max_change corpus pagerank new_pagerank =
     for_loop (\<lambda>page max_change.
         (case getitem pagerank page of Inl e \<Rightarrow> Inl e
          | Inr old \<Rightarrow>
             (case getitem new_pagerank page of Inl e \<Rightarrow> Inl e
              | Inr new \<Rightarrow> Inr (max max_change (abs (old - new))))))
       (keys corpus) 0"

text \<open>
  Lines 140-160: one round of the \<^verbatim>\<open>while\<close> loop. It returns the normalised
  \<^verbatim>\<open>new_pagerank\<close>, which line 160 copies into \<^verbatim>\<open>pagerank\<close>, and the
  \<^verbatim>\<open>max_change\<close> the loop condition tests.
\<close>

definition iterate_round ::
  "corpus \<Rightarrow> real \<Rightarrow> real \<Rightarrow> real \<Rightarrow> real dict \<Rightarrow> error + real dict \<times> real" where
  "iterate_round corpus damping_factor prob_random prob_all pagerank =
     (case update_ranks corpus damping_factor prob_random prob_all pagerank of
        Inl e \<Rightarrow> Inl e
      | Inr new_pagerank \<Rightarrow>
         (case normalize new_pagerank of Inl e \<Rightarrow> Inl e
          | Inr new_pagerank \<Rightarrow>
             (case max_change corpus pagerank new_pagerank of Inl e \<Rightarrow> Inl e
              | Inr mc \<Rightarrow> Inr (new_pagerank, mc))))"

text \<open>
  Lines 137-162: the \<^verbatim>\<open>while\<close> loop. Line 137 sets \<^verbatim>\<open>max_change = 1\<close>, so the
  first round always runs; after each round the loop continues while
  \<^verbatim>\<open>max_change > 0.001\<close>. The source bounds the number of rounds nowhere, so a run
  that never ends is the value \<open>None\<close>.
\<close>

partial_function (option) iterate_loop ::
  "corpus \<Rightarrow> real \<Rightarrow> real \<Rightarrow> real \<Rightarrow> real dict \<Rightarrow> (error + real dict) option" where
  "iterate_loop corpus damping_factor prob_random prob_all pagerank =
     (case iterate_round corpus damping_factor prob_random prob_all pagerank of
        Inl e \<Rightarrow> Some (Inl e)
      | Inr (new_pagerank, change) \<Rightarrow>
         (if change > 0.001
          then iterate_loop corpus damping_factor prob_random prob_all new_pagerank
          else Some (Inr new_pagerank)))"

definition iterate_pagerank :: "corpus \<Rightarrow> real \<Rightarrow> (error + real dict) option" where
  "iterate_pagerank corpus damping_factor =
     (case truediv (1 - damping_factor) (real (length corpus)) of Inl e \<Rightarrow> Some (Inl e)
      | Inr prob_random \<Rightarrow>
         (case truediv 1 (real (length corpus)) of Inl e \<Rightarrow> Some (Inl e)
          | Inr prob_all \<Rightarrow>
             iterate_loop corpus damping_factor prob_random prob_all
               (init_dict corpus prob_random)))"

declare iterate_loop.simps [code]

section \<open>The data model of the specification\<close>

text \<open>
  The Graph invariants: (a) every link target is a key of the mapping, (b) no page
  links to itself, (c) the mapping has at least one entry. The two \<open>distinct\<close>
  conditions say that the association list is a dictionary and each link list a set.
\<close>

definition graph_inv :: "corpus \<Rightarrow> bool" where
  "graph_inv corpus \<longleftrightarrow>
     distinct (keys corpus) \<and> corpus \<noteq> [] \<and>
     (\<forall>(page, links) \<in> set corpus.
        distinct links \<and> set links \<subseteq> set (keys corpus) \<and> page \<notin> set links)"

text \<open>The dictionary with keys \<open>ks\<close>, in this order, that maps \<open>k\<close> to \<open>f k\<close>.\<close>

definition tab :: "(page \<Rightarrow> 'v) \<Rightarrow> page list \<Rightarrow> 'v dict" where
  "tab f ks = map (\<lambda>k. (k, f k)) ks"

text \<open>
  The update equation in the words of the specification: \<open>contribution N PR (q, links) p\<close>
  is \<open>PR(q)/|links(q)|\<close> if \<open>q\<close> links to \<open>p\<close>, \<open>PR(q)/N\<close> if \<open>q\<close> is a sink, and
  \<open>0\<close> otherwise; \<open>spec_rank\<close> is the right-hand side of the equation for \<open>PR(p)\<close>.
\<close>

definition contribution :: "nat \<Rightarrow> (page \<Rightarrow> real) \<Rightarrow> page \<times> page list \<Rightarrow> page \<Rightarrow> real" where
  "contribution N PR q p =
     (case q of (q, links) \<Rightarrow>
        if p \<in> set links then PR q / real (length links)
        else if links = [] then PR q / real N
        else 0)"

definition spec_rank :: "corpus \<Rightarrow> real \<Rightarrow> (page \<Rightarrow> real) \<Rightarrow> page \<Rightarrow> real" where
  "spec_rank corpus damping PR p =
     (1 - damping) / real (length corpus) +
     damping * (\<Sum>q\<leftarrow>corpus. contribution (length corpus) PR q p)"

text \<open>
  The table after \<open>k\<close> rounds of the loop body, whatever the exit test says: the
  sequence of tables the \<^verbatim>\<open>while\<close> loop walks along.
\<close>

fun rounds :: "corpus \<Rightarrow> real \<Rightarrow> real \<Rightarrow> real \<Rightarrow> nat \<Rightarrow> real dict \<Rightarrow> error + real dict" where
  "rounds corpus damping_factor prob_random prob_all 0 pagerank = Inr pagerank"
| "rounds corpus damping_factor prob_random prob_all (Suc k) pagerank =
     (case iterate_round corpus damping_factor prob_random prob_all pagerank of
        Inl e \<Rightarrow> Inl e
      | Inr (new_pagerank, change) \<Rightarrow>
          rounds corpus damping_factor prob_random prob_all k new_pagerank)"

text \<open>
  The ranks as functions of the page, for the convergence argument: \<open>pure_step\<close> is one
  round on functions (the update equation, then the division by the sum), and
  \<open>rank_seq corpus damping n\<close> the ranks after \<open>n\<close> rounds from the table line 134
  sets up. That the loop computes exactly these is a lemma below, not an assumption.
\<close>

definition pure_step :: "corpus \<Rightarrow> real \<Rightarrow> (page \<Rightarrow> real) \<Rightarrow> page \<Rightarrow> real" where
  "pure_step corpus damping PR =
     (\<lambda>p. spec_rank corpus damping PR p / (\<Sum>k\<leftarrow>keys corpus. spec_rank corpus damping PR k))"



section \<open>Dictionaries and loops\<close>

lemma keys_tab [simp]: "keys (tab f ks) = ks"
  by (simp add: keys_def tab_def comp_def)

lemma vals_tab [simp]: "vals (tab f ks) = map f ks"
  by (simp add: vals_def tab_def comp_def)

lemma length_tab [simp]: "length (tab f ks) = length ks"
  by (simp add: tab_def)

lemma tab_Nil [simp]: "tab f [] = []"
  by (simp add: tab_def)

lemma tab_Cons [simp]: "tab f (k # ks) = (k, f k) # tab f ks"
  by (simp add: tab_def)

lemma tab_cong: "(\<And>k. k \<in> set ks \<Longrightarrow> f k = g k) \<Longrightarrow> tab f ks = tab g ks"
  by (simp add: tab_def)

lemma getitem_tab: "getitem (tab f ks) k = (if k \<in> set ks then Inr (f k) else Inl KeyError)"
  by (induction ks) auto

lemma getitem_member: "distinct (keys d) \<Longrightarrow> (k, v) \<in> set d \<Longrightarrow> getitem d k = Inr v"
  by (induction d) (auto simp: keys_def rev_image_eqI)

lemma setitem_tab:
  "distinct ks \<Longrightarrow> k \<in> set ks \<Longrightarrow> setitem (tab f ks) k v = tab (f(k := v)) ks"
  by (induction ks) (auto intro: tab_cong)

lemma setitem_append_new: "k \<notin> set (keys d) \<Longrightarrow> setitem d k v = d @ [(k, v)]"
  by (induction d) (auto simp: keys_def)

lemma for_loop_setitem_new:
  "distinct ks \<Longrightarrow> set ks \<inter> set (keys d) = {} \<Longrightarrow>
   (\<And>k d. k \<in> set ks \<Longrightarrow> body k d = Inr (setitem d k (f k))) \<Longrightarrow>
   for_loop body ks d = Inr (d @ tab f ks)"
proof (induction ks arbitrary: d)
  case Nil
  then show ?case by simp
next
  case (Cons k ks)
  have "set ks \<inter> set (keys (d @ [(k, f k)])) = {}"
    using Cons.prems(1,2) by (auto simp: keys_def)
  then have "for_loop body ks (d @ [(k, f k)]) = Inr ((d @ [(k, f k)]) @ tab f ks)"
    using Cons.IH Cons.prems by simp
  then show ?case
    using Cons.prems by (simp add: setitem_append_new)
qed

lemma init_dict_tab: "distinct (keys corpus) \<Longrightarrow> init_dict corpus v = tab (\<lambda>_. v) (keys corpus)"
proof -
  have "distinct ks \<Longrightarrow> set ks \<inter> set (keys d) = {} \<Longrightarrow>
        fold (\<lambda>page_name d. setitem d page_name v) ks d = d @ tab (\<lambda>_. v) ks" for ks and d :: "'b dict"
  proof (induction ks arbitrary: d)
    case Nil
    then show ?case by simp
  next
    case (Cons k ks)
    have "set ks \<inter> set (keys (d @ [(k, v)])) = {}"
      using Cons.prems by (auto simp: keys_def)
    then show ?case
      using Cons by (simp add: setitem_append_new)
  qed
  from this [of "keys corpus" "[]"] show "distinct (keys corpus) \<Longrightarrow> ?thesis"
    by (simp add: init_dict_def keys_def)
qed

lemma for_loop_update_tab:
  "distinct ks \<Longrightarrow> distinct ls \<Longrightarrow> set ls \<subseteq> set ks \<Longrightarrow>
   (\<And>k g. k \<in> set ls \<Longrightarrow> body k (tab g ks) = Inr (setitem (tab g ks) k (h k (g k)))) \<Longrightarrow>
   for_loop body ls (tab f ks) = Inr (tab (\<lambda>k. if k \<in> set ls then h k (f k) else f k) ks)"
proof (induction ls arbitrary: f)
  case Nil
  then show ?case by simp
next
  case (Cons l ls)
  have "for_loop body ls (tab (f(l := h l (f l))) ks) =
        Inr (tab (\<lambda>k. if k \<in> set ls then h k ((f(l := h l (f l))) k) else (f(l := h l (f l))) k) ks)"
    using Cons.prems by (intro Cons.IH) auto
  moreover have "body l (tab f ks) = Inr (tab (f(l := h l (f l))) ks)"
    using Cons.prems by (simp add: setitem_tab)
  ultimately show ?case
    using Cons.prems(2) by (auto intro!: tab_cong)
qed

lemma graph_inv_distinct: "graph_inv corpus \<Longrightarrow> distinct (keys corpus)"
  by (simp add: graph_inv_def)

lemma graph_inv_length: "graph_inv corpus \<Longrightarrow> 0 < length corpus"
  by (simp add: graph_inv_def)

lemma getitem_Inr_member: "getitem d k = Inr v \<Longrightarrow> (k, v) \<in> set d"
  by (induction d) (auto split: if_splits)

lemma getitem_Inr_key: "getitem d k = Inr v \<Longrightarrow> k \<in> set (keys d)"
  by (induction d) (auto simp: keys_def split: if_splits)

lemma graph_inv_links:
  "graph_inv corpus \<Longrightarrow> getitem corpus page = Inr links \<Longrightarrow>
   distinct links \<and> set links \<subseteq> set (keys corpus) \<and> page \<notin> set links"
  using getitem_Inr_member [of corpus page links] by (auto simp: graph_inv_def)

lemma length_keys [simp]: "length (keys d) = length d"
  by (simp add: keys_def)

lemma iadd_tab:
  "distinct ks \<Longrightarrow> k \<in> set ks \<Longrightarrow> iadd (tab g ks) k x = Inr (setitem (tab g ks) k (g k + x))"
  by (simp add: iadd_def getitem_tab)

lemma transition_model_sink:
  assumes "distinct (keys corpus)" and "getitem corpus page = Inr []"
  shows "transition_model corpus page d = Inr (tab (\<lambda>_. 1 / real (length corpus)) (keys corpus))"
proof -
  let ?ks = "keys corpus"
  let ?body = "\<lambda>page_name probability.
                 (case getitem probability page_name of Inl e \<Rightarrow> Inl e
                  | Inr v \<Rightarrow>
                     (case truediv 1 (real (length corpus)) of Inl e \<Rightarrow> Inl e
                      | Inr x \<Rightarrow> Inr (setitem probability page_name (v + x))))"
  have "page \<in> set ?ks" using assms(2) by (rule getitem_Inr_key)
  then have N: "length corpus \<noteq> 0" by (auto simp: keys_def)
  have "for_loop ?body ?ks (tab (\<lambda>_. 0) ?ks) =
        Inr (tab (\<lambda>k. if k \<in> set ?ks then (\<lambda>k v. v + 1 / real (length corpus)) k 0 else 0) ?ks)"
    using assms(1) N by (intro for_loop_update_tab) (auto simp: getitem_tab truediv_def)
  also have "tab (\<lambda>k. if k \<in> set ?ks then (\<lambda>k v. v + 1 / real (length corpus)) k 0 else 0) ?ks
             = tab (\<lambda>_. 1 / real (length corpus)) ?ks"
    by (rule tab_cong) simp
  finally show ?thesis
    using assms by (simp add: transition_model_def init_dict_tab)
qed

lemma transition_model_links:
  assumes "graph_inv corpus" and "getitem corpus page = Inr links" and "links \<noteq> []"
  shows "transition_model corpus page d =
         Inr (tab (\<lambda>p. (if p \<in> set links then d / real (length links) else 0)
                        + (1 - d) / real (length corpus)) (keys corpus))"
proof -
  let ?ks = "keys corpus"
  let ?pl = "d / real (length links)"
  let ?pr = "(1 - d) / real (length corpus)"
  have ks: "distinct ?ks" using assms(1) by (rule graph_inv_distinct)
  have N: "length corpus \<noteq> 0" using graph_inv_length [OF assms(1)] by simp
  have links: "distinct links" "set links \<subseteq> set ?ks"
    using graph_inv_links [OF assms(1,2)] by simp_all
  have 1: "for_loop (\<lambda>page_name probability. iadd probability page_name ?pl) links (tab (\<lambda>_. 0) ?ks)
           = Inr (tab (\<lambda>k. if k \<in> set links then (\<lambda>k v. v + ?pl) k 0 else 0) ?ks)"
    using ks links by (intro for_loop_update_tab) (auto simp: iadd_tab)
  let ?f = "\<lambda>k. if k \<in> set links then (\<lambda>k v. v + ?pl) k 0 else (0::real)"
  have 2: "for_loop (\<lambda>page_name probability. iadd probability page_name ?pr) ?ks (tab ?f ?ks)
           = Inr (tab (\<lambda>k. if k \<in> set ?ks then (\<lambda>k v. v + ?pr) k (?f k) else ?f k) ?ks)"
    using ks by (intro for_loop_update_tab) (auto simp: iadd_tab)
  have 3: "tab (\<lambda>k. if k \<in> set ?ks then (\<lambda>k v. v + ?pr) k (?f k) else ?f k) ?ks
           = tab (\<lambda>p. (if p \<in> set links then ?pl else 0) + ?pr) ?ks"
    by (rule tab_cong) simp
  show ?thesis
    using assms(2,3) ks N 1 2 3
    by (simp add: transition_model_def init_dict_tab truediv_def)
qed

lemma sum_list_indicator:
  assumes "distinct ks" and "distinct ls" and "set ls \<subseteq> set ks"
  shows "(\<Sum>p\<leftarrow>ks. if p \<in> set ls then c else 0) = real (length ls) * (c::real)"
proof -
  have "(\<Sum>p\<leftarrow>ks. if p \<in> set ls then c else 0) = (\<Sum>p\<in>set ks. if p \<in> set ls then c else 0)"
    using assms(1) by (simp add: sum_list_distinct_conv_sum_set)
  also have "\<dots> = (\<Sum>p\<in>set ks \<inter> set ls. c)"
    using sum.inter_restrict [of "set ks" "\<lambda>_. c" "set ls"] by simp
  also have "set ks \<inter> set ls = set ls" using assms(3) by auto
  finally show ?thesis using assms(2) by (simp add: distinct_card)
qed

lemma getitem_key: "k \<in> set (keys d) \<Longrightarrow> \<exists>v. getitem d k = Inr v"
  by (induction d) (force simp: keys_def)+

lemma sum_list_const: "(\<Sum>p\<leftarrow>ks. (c::real)) = real (length ks) * c"
  by (simp add: sum_list_triv)

section \<open>Properties of the transition model\<close>

text \<open>
  Claim C2. On a graph satisfying the Graph invariants, for a page that is a key of the
  graph with at least one outbound link and any damping factor (those of \<open>[0,1]\<close>
  included), \<open>transition_model\<close> returns the table over the keys of the graph that
  gives each page \<open>p\<close> the sum of \<open>damping / |links(page)|\<close> if \<open>page\<close> links to
  \<open>p\<close> (else \<open>0\<close>) and \<open>(1 - damping) / |graph|\<close>.
\<close>

theorem transition_model_mixture:
  assumes "graph_inv corpus" and "getitem corpus page = Inr links" and "links \<noteq> []"
  shows "transition_model corpus page damping =
           Inr (tab (\<lambda>p. (if p \<in> set links then damping / real (length links) else 0)
                          + (1 - damping) / real (length corpus)) (keys corpus))"
  using assms by (rule transition_model_links)

theorem transition_model_mixture_witness:
  "graph_inv [(''A'', [''B'']), (''B'', [''A'', ''C'']), (''C'', [''A''])] \<and>
   getitem [(''A'', [''B'']), (''B'', [''A'', ''C'']), (''C'', [''A''])] ''B'' = Inr [''A'', ''C''] \<and>
   [''A'', ''C''] \<noteq> [] \<and>
   transition_model [(''A'', [''B'']), (''B'', [''A'', ''C'']), (''C'', [''A''])] ''B'' (1 / 2) =
     Inr [(''A'', 5 / 12), (''B'', 1 / 6), (''C'', 5 / 12)]"
proof -
  let ?g = "[(''A'', [''B'']), (''B'', [''A'', ''C'']), (''C'', [''A''])]"
  have inv: "graph_inv ?g" by (simp add: graph_inv_def keys_def)
  have get: "getitem ?g ''B'' = Inr [''A'', ''C'']" by simp
  have ne: "[''A'', ''C''] \<noteq> ([] :: page list)" by simp
  show ?thesis
    using inv get transition_model_mixture [OF inv get ne, of "1 / 2"]
    by (simp add: tab_def keys_def)
qed

text \<open>
  Claim C3. On a graph satisfying the Graph invariants, for a key of the graph with no
  outbound links, \<open>transition_model\<close> returns the table giving \<open>1 / |graph|\<close> to
  every page of the graph, the sink page itself among them, whatever the damping factor.
\<close>

theorem transition_model_sink_uniform:
  assumes "graph_inv corpus" and "getitem corpus page = Inr []"
  shows "transition_model corpus page damping =
           Inr (tab (\<lambda>p. 1 / real (length corpus)) (keys corpus)) \<and>
         getitem (tab (\<lambda>p. 1 / real (length corpus)) (keys corpus)) page =
           Inr (1 / real (length corpus))"
  using assms getitem_Inr_key [OF assms(2)]
  by (simp add: transition_model_sink graph_inv_distinct getitem_tab)

theorem transition_model_sink_uniform_witness:
  "graph_inv [(''A'', [''B'']), (''B'', [])] \<and>
   getitem [(''A'', [''B'']), (''B'', [])] ''B'' = Inr [] \<and>
   transition_model [(''A'', [''B'']), (''B'', [])] ''B'' (85 / 100) =
     Inr [(''A'', 1 / 2), (''B'', 1 / 2)]"
proof -
  let ?g = "[(''A'', [''B'']), (''B'', [])]"
  have inv: "graph_inv ?g" by (simp add: graph_inv_def keys_def)
  have get: "getitem ?g ''B'' = Inr []" by simp
  show ?thesis
    using inv get transition_model_sink_uniform [OF inv get, of "85 / 100"]
    by (simp add: tab_def keys_def)
qed

text \<open>
  Claim C8. On a graph satisfying the Graph invariants, for every key of the graph and
  every damping factor in \<open>[0,1]\<close>, \<open>transition_model\<close> returns a table over the
  pages of the graph whose values sum to exactly \<open>1\<close> and are all non-negative.
\<close>

theorem transition_model_distribution:
  assumes "graph_inv corpus" and "page \<in> set (keys corpus)"
    and "0 \<le> damping" and "damping \<le> 1"
  shows "\<exists>t. transition_model corpus page damping = Inr t \<and> keys t = keys corpus \<and>
             sum_list (vals t) = 1 \<and> (\<forall>v \<in> set (vals t). 0 \<le> v)"
proof -
  obtain links where get: "getitem corpus page = Inr links"
    using getitem_key [OF assms(2)] by blast
  let ?N = "real (length corpus)"
  have N: "0 < ?N" using graph_inv_length [OF assms(1)] by simp
  show ?thesis
  proof (cases "links = []")
    case True
    then have "transition_model corpus page damping = Inr (tab (\<lambda>p. 1 / ?N) (keys corpus))"
      using get assms(1) by (simp add: transition_model_sink graph_inv_distinct)
    moreover have "sum_list (vals (tab (\<lambda>p. 1 / ?N) (keys corpus))) = 1"
      using N by (simp add: sum_list_triv)
    moreover have "\<forall>v \<in> set (vals (tab (\<lambda>p. 1 / ?N) (keys corpus))). 0 \<le> v"
      by auto
    ultimately show ?thesis by simp
  next
    case False
    let ?f = "\<lambda>p. (if p \<in> set links then damping / real (length links) else 0) + (1 - damping) / ?N"
    have tm: "transition_model corpus page damping = Inr (tab ?f (keys corpus))"
      using assms(1) get False by (rule transition_model_links)
    have links: "distinct links" "set links \<subseteq> set (keys corpus)"
      using graph_inv_links [OF assms(1) get] by simp_all
    have "sum_list (map ?f (keys corpus)) =
          (\<Sum>p\<leftarrow>keys corpus. if p \<in> set links then damping / real (length links) else 0)
          + (\<Sum>p\<leftarrow>keys corpus. (1 - damping) / ?N)"
      by (simp add: sum_list_addf)
    also have "\<dots> = real (length links) * (damping / real (length links)) + ?N * ((1 - damping) / ?N)"
      using links graph_inv_distinct [OF assms(1)]
      by (simp only: sum_list_indicator sum_list_const length_keys)
    also have "\<dots> = 1" using False N by simp
    finally have "sum_list (vals (tab ?f (keys corpus))) = 1" by simp
    moreover have "\<forall>v \<in> set (vals (tab ?f (keys corpus))). 0 \<le> v"
      using assms(3,4) by auto
    ultimately show ?thesis using tm by simp
  qed
qed

theorem transition_model_distribution_witness:
  "graph_inv [(''A'', [''B'']), (''B'', [''A'', ''C'']), (''C'', [''A''])] \<and>
   ''A'' \<in> set (keys [(''A'', [''B'']), (''B'', [''A'', ''C'']), (''C'', [''A''])]) \<and>
   (0::real) \<le> 85 / 100 \<and> (85 / 100 :: real) \<le> 1 \<and>
   (\<exists>t. transition_model [(''A'', [''B'']), (''B'', [''A'', ''C'']), (''C'', [''A''])] ''A'' (85 / 100)
          = Inr t \<and> sum_list (vals t) = 1 \<and> (\<forall>v \<in> set (vals t). 0 \<le> v))"
proof -
  let ?g = "[(''A'', [''B'']), (''B'', [''A'', ''C'']), (''C'', [''A''])]"
  have inv: "graph_inv ?g" by (simp add: graph_inv_def keys_def)
  have key: "''A'' \<in> set (keys ?g)" by (simp add: keys_def)
  have d: "(0::real) \<le> 85 / 100" "(85 / 100 :: real) \<le> 1" by simp_all
  show ?thesis
    using inv key d transition_model_distribution [OF inv key d] by blast
qed

section \<open>Properties of the sampling estimator\<close>

lemma for_loop_append:
  "for_loop body (xs @ ys) s =
     (case for_loop body xs s of Inl e \<Rightarrow> Inl e | Inr s' \<Rightarrow> for_loop body ys s')"
  by (induction xs arbitrary: s) (auto split: sum.splits)

lemma for_loop_upt_invariant:
  assumes "P 0 s"
    and "\<And>i s. i < m \<Longrightarrow> P i s \<Longrightarrow> \<exists>s'. body i s = Inr s' \<and> P (Suc i) s'"
  shows "\<exists>s'. for_loop body [0..<m] s = Inr s' \<and> P m s'"
  using assms(2)
proof (induction m)
  case 0
  then show ?case using assms(1) by simp
next
  case (Suc m)
  then obtain s1 where s1: "for_loop body [0..<m] s = Inr s1" "P m s1"
    by (metis less_Suc_eq)
  obtain s2 where "body m s1 = Inr s2" "P (Suc m) s2"
    using Suc.prems [of m s1] s1(2) by auto
  then show ?case using s1 by (simp add: for_loop_append)
qed

lemma scan_member: "scan fadd w a r = Some p \<Longrightarrow> p \<in> set (keys w)"
  by (induction fadd w a r rule: scan.induct) (auto simp: keys_def Let_def split: if_splits)

lemma scan_None_less: "scan (+) w a r = None \<Longrightarrow> w \<noteq> [] \<Longrightarrow> a + sum_list (vals w) < r"
proof (induction w arbitrary: a)
  case Nil
  then show ?case by simp
next
  case (Cons x items)
  obtain page_name probability where x: "x = (page_name, probability)" by (cases x)
  have lt: "a + probability < r" and rest: "scan (+) items (a + probability) r = None"
    using Cons.prems(1) x by (simp_all add: Let_def split: if_splits)
  show ?case
  proof (cases "items = []")
    case True
    then show ?thesis using lt x by (simp add: vals_def)
  next
    case False
    then have "a + probability + sum_list (vals items) < r"
      using rest by (intro Cons.IH)
    then show ?thesis using x by (simp add: vals_def add.assoc)
  qed
qed

lemma transition_model_total:
  assumes "graph_inv corpus" and "page \<in> set (keys corpus)"
  shows "\<exists>f. transition_model corpus page d = Inr (tab f (keys corpus)) \<and>
             (\<Sum>k\<leftarrow>keys corpus. f k) = 1"
proof -
  obtain links where get: "getitem corpus page = Inr links"
    using getitem_key [OF assms(2)] by blast
  let ?N = "real (length corpus)"
  have N: "0 < ?N" using graph_inv_length [OF assms(1)] by simp
  show ?thesis
  proof (cases "links = []")
    case True
    then have "transition_model corpus page d = Inr (tab (\<lambda>p. 1 / ?N) (keys corpus))"
      using get assms(1) by (simp add: transition_model_sink graph_inv_distinct)
    moreover have "(\<Sum>k\<leftarrow>keys corpus. 1 / ?N) = 1"
      using N by (simp add: sum_list_triv)
    ultimately show ?thesis by blast
  next
    case False
    let ?f = "\<lambda>p. (if p \<in> set links then d / real (length links) else 0) + (1 - d) / ?N"
    have tm: "transition_model corpus page d = Inr (tab ?f (keys corpus))"
      using assms(1) get False by (rule transition_model_links)
    have links: "distinct links" "set links \<subseteq> set (keys corpus)"
      using graph_inv_links [OF assms(1) get] by simp_all
    have "sum_list (map ?f (keys corpus)) =
          (\<Sum>p\<leftarrow>keys corpus. if p \<in> set links then d / real (length links) else 0)
          + (\<Sum>p\<leftarrow>keys corpus. (1 - d) / ?N)"
      by (simp add: sum_list_addf)
    also have "\<dots> = real (length links) * (d / real (length links)) + ?N * ((1 - d) / ?N)"
      using links graph_inv_distinct [OF assms(1)]
      by (simp only: sum_list_indicator sum_list_const length_keys)
    also have "\<dots> = 1" using False N by simp
    finally show ?thesis using tm by blast
  qed
qed

lemma sum_list_fun_upd:
  "distinct ks \<Longrightarrow> k \<in> set ks \<Longrightarrow>
   (\<Sum>p\<leftarrow>ks. (f(k := v)) p) = (\<Sum>p\<leftarrow>ks. f p) - f k + (v :: 'a :: ab_group_add)"
proof (induction ks)
  case Nil
  then show ?case by simp
next
  case (Cons a ks)
  show ?case
  proof (cases "a = k")
    case True
    then have "k \<notin> set ks" using Cons.prems by simp
    then have "(\<Sum>p\<leftarrow>ks. (f(k := v)) p) = (\<Sum>p\<leftarrow>ks. f p)"
      by (intro arg_cong [where f = sum_list] map_cong) auto
    then show ?thesis using True by simp
  next
    case False
    then show ?thesis using Cons by (simp add: algebra_simps)
  qed
qed

lemma sample_step_ok:
  assumes "graph_inv corpus" and "cur \<in> set (keys corpus)"
  shows "\<exists>cur'. cur' \<in> set (keys corpus) \<and>
           sample_step fadd corpus d rand i (cur, tab c (keys corpus)) =
             Inr (cur', tab (c(cur' := c cur' + 1)) (keys corpus))"
proof -
  obtain f where tm: "transition_model corpus cur d = Inr (tab f (keys corpus))"
    using transition_model_total [OF assms] by blast
  let ?cur' = "case scan fadd (tab f (keys corpus)) 0 (rand i) of Some page_name \<Rightarrow> page_name | None \<Rightarrow> cur"
  have mem: "?cur' \<in> set (keys corpus)"
    using assms(2) scan_member [of fadd "tab f (keys corpus)" 0 "rand i"]
    by (auto split: option.splits)
  have "sample_step fadd corpus d rand i (cur, tab c (keys corpus)) =
          Inr (?cur', tab (c(?cur' := c ?cur' + 1)) (keys corpus))"
    using tm mem graph_inv_distinct [OF assms(1)]
    by (simp add: sample_step_def iadd_tab setitem_tab Let_def)
  then show ?thesis using mem by blast
qed

lemma sample_init_ok:
  assumes "graph_inv corpus"
  shows "\<exists>start. start \<in> set (keys corpus) \<and>
           sample_init corpus r = Inr (start, tab ((\<lambda>_. 0)(start := 1)) (keys corpus))"
proof -
  let ?ks = "keys corpus"
  have ne: "?ks \<noteq> []" using graph_inv_length [OF assms] by (auto simp: keys_def)
  let ?start = "?ks ! (r mod length ?ks)"
  have "r mod length ?ks < length ?ks" using graph_inv_length [OF assms] by simp
  then have mem: "?start \<in> set ?ks" by (rule nth_mem)
  have "sample_init corpus r = Inr (?start, tab ((\<lambda>_. 0)(?start := 1)) ?ks)"
    using ne mem graph_inv_distinct [OF assms]
    by (simp add: sample_init_def init_dict_tab choice_def iadd_tab setitem_tab)
  then show ?thesis using mem by blast
qed

lemma divide_counts_tab:
  "n \<noteq> 0 \<Longrightarrow> divide_counts (tab c ks) n = Inr (tab (\<lambda>k. real_of_int (c k) / real_of_int n) ks)"
  by (induction ks) (auto simp: truediv_def)

lemma of_int_sum_list_map: "real_of_int (\<Sum>k\<leftarrow>ks. c k) = (\<Sum>k\<leftarrow>ks. real_of_int (c k))"
  by (induction ks) auto

lemma sum_list_divide_const: "(\<Sum>k\<leftarrow>ks. f k / (n::real)) = (\<Sum>k\<leftarrow>ks. f k) / n"
  by (induction ks) (auto simp: add_divide_distrib)

lemma upt_0_2: "[0..<2] = [0, Suc 0]"
  by (simp add: numeral_2_eq_2)

text \<open>Seven float additions of \<open>1 / 7\<close>, as the scan of a seven-page sink performs them.\<close>

lemma ulp_down_unfold:
  "0 < n \<Longrightarrow> ulp_down n u x = (if u * 2 ^ 52 \<le> \<bar>x\<bar> then u else ulp_down (n - 1) (u / 2) x)"
  by (cases n) simp_all

lemma ulp_up_unfold:
  "0 < n \<Longrightarrow> ulp_up n u x = (if \<bar>x\<bar> < u * 2 ^ 53 then u else ulp_up (n - 1) (u * 2) x)"
  by (cases n) simp_all

lemmas float_defs = float_of_def ulp_def ulp_down_unfold ulp_up_unfold round_even_def Let_def

lemma float_of_zero: "float_of 0 = 0"
  by (simp add: float_of_def round_even_def)

lemma float_of_seventh: "float_of (1 / 7) = 2573485501354569 / 18014398509481984"
  by (simp add: float_defs)

lemma float_add_seventh_1: "float_add 0 (1 / 7) = 2573485501354569 / 18014398509481984"
proof -
  have "float_of (2573485501354569 / 18014398509481984)
        = 2573485501354569 / 18014398509481984"
    by (simp add: float_defs)
  then show ?thesis by (simp add: float_add_def float_of_zero float_of_seventh)
qed

lemma float_add_seventh_2:
  "float_add (2573485501354569 / 18014398509481984) (1 / 7)
   = 2573485501354569 / 9007199254740992"
proof -
  have "float_of (2573485501354569 / 18014398509481984)
        = 2573485501354569 / 18014398509481984"
    by (simp add: float_defs)
  moreover have "float_of (2573485501354569 / 18014398509481984
                   + 2573485501354569 / 18014398509481984)
                 = 2573485501354569 / 9007199254740992"
    by (simp add: float_defs)
  ultimately show ?thesis by (simp only: float_add_def float_of_seventh)
qed

lemma float_add_seventh_3:
  "float_add (2573485501354569 / 9007199254740992) (1 / 7)
   = 7720456504063707 / 18014398509481984"
proof -
  have "float_of (2573485501354569 / 9007199254740992)
        = 2573485501354569 / 9007199254740992"
    by (simp add: float_defs)
  moreover have "float_of (2573485501354569 / 9007199254740992
                   + 2573485501354569 / 18014398509481984)
                 = 7720456504063707 / 18014398509481984"
    by (simp add: float_defs)
  ultimately show ?thesis by (simp only: float_add_def float_of_seventh)
qed

lemma float_add_seventh_4:
  "float_add (7720456504063707 / 18014398509481984) (1 / 7)
   = 2573485501354569 / 4503599627370496"
proof -
  have "float_of (7720456504063707 / 18014398509481984)
        = 7720456504063707 / 18014398509481984"
    by (simp add: float_defs)
  moreover have "float_of (7720456504063707 / 18014398509481984
                   + 2573485501354569 / 18014398509481984)
                 = 2573485501354569 / 4503599627370496"
    by (simp add: float_defs)
  ultimately show ?thesis by (simp only: float_add_def float_of_seventh)
qed

lemma float_add_seventh_5:
  "float_add (2573485501354569 / 4503599627370496) (1 / 7)
   = 3216856876693211 / 4503599627370496"
proof -
  have "float_of (2573485501354569 / 4503599627370496)
        = 2573485501354569 / 4503599627370496"
    by (simp add: float_defs)
  moreover have "float_of (2573485501354569 / 4503599627370496
                   + 2573485501354569 / 18014398509481984)
                 = 3216856876693211 / 4503599627370496"
    by (simp add: float_defs)
  ultimately show ?thesis by (simp only: float_add_def float_of_seventh)
qed

lemma float_add_seventh_6:
  "float_add (3216856876693211 / 4503599627370496) (1 / 7)
   = 3860228252031853 / 4503599627370496"
proof -
  have "float_of (3216856876693211 / 4503599627370496)
        = 3216856876693211 / 4503599627370496"
    by (simp add: float_defs)
  moreover have "float_of (3216856876693211 / 4503599627370496
                   + 2573485501354569 / 18014398509481984)
                 = 3860228252031853 / 4503599627370496"
    by (simp add: float_defs)
  ultimately show ?thesis by (simp only: float_add_def float_of_seventh)
qed

lemma float_add_seventh_7:
  "float_add (3860228252031853 / 4503599627370496) (1 / 7)
   = 4503599627370495 / 4503599627370496"
proof -
  have "float_of (3860228252031853 / 4503599627370496)
        = 3860228252031853 / 4503599627370496"
    by (simp add: float_defs)
  moreover have "float_of (3860228252031853 / 4503599627370496
                   + 2573485501354569 / 18014398509481984)
                 = 4503599627370495 / 4503599627370496"
    by (simp add: float_defs)
  ultimately show ?thesis by (simp only: float_add_def float_of_seventh)
qed

lemma sample_walk_ok:
  assumes "graph_inv corpus" and "start \<in> set (keys corpus)"
  shows "\<exists>cur c. for_loop (sample_step fadd corpus d rand) [0..<m] (start, tab c0 (keys corpus)) =
                   Inr (cur, tab c (keys corpus)) \<and>
                 cur \<in> set (keys corpus) \<and>
                 (\<Sum>k\<leftarrow>keys corpus. c k) = (\<Sum>k\<leftarrow>keys corpus. c0 k) + int m"
proof -
  let ?ks = "keys corpus"
  let ?P = "\<lambda>i s. \<exists>cur c. s = (cur, tab c ?ks) \<and> cur \<in> set ?ks \<and>
                     (\<Sum>k\<leftarrow>?ks. c k) = (\<Sum>k\<leftarrow>?ks. c0 k) + int i"
  have "\<exists>s'. for_loop (sample_step fadd corpus d rand) [0..<m] (start, tab c0 ?ks) = Inr s' \<and> ?P m s'"
  proof (rule for_loop_upt_invariant)
    show "?P 0 (start, tab c0 ?ks)" using assms(2) by auto
  next
    fix i s
    assume "i < m" and "?P i s"
    then obtain cur c where s: "s = (cur, tab c ?ks)" "cur \<in> set ?ks"
      "(\<Sum>k\<leftarrow>?ks. c k) = (\<Sum>k\<leftarrow>?ks. c0 k) + int i"
      by blast
    obtain cur' where step: "cur' \<in> set ?ks"
      "sample_step fadd corpus d rand i (cur, tab c ?ks) = Inr (cur', tab (c(cur' := c cur' + 1)) ?ks)"
      using sample_step_ok [OF assms(1) s(2)] by blast
    have "(\<Sum>k\<leftarrow>?ks. (c(cur' := c cur' + 1)) k) = (\<Sum>k\<leftarrow>?ks. c0 k) + int (Suc i)"
      using sum_list_fun_upd [OF graph_inv_distinct [OF assms(1)] step(1), of c "c cur' + 1"] s(3)
      by simp
    then show "\<exists>s'. sample_step fadd corpus d rand i s = Inr s' \<and> ?P (Suc i) s'"
      using s(1) step by blast
  qed
  then show ?thesis by blast
qed

text \<open>
  Claim C7. On a graph satisfying the Graph invariants, for every \<open>n \<ge> 1\<close>, every
  damping factor (those of \<open>[0,1]\<close> included), every outcome of the random source
  and however the sum of line 105 is rounded (every \<open>fadd\<close>, the exact sum included),
  \<open>sample_pagerank\<close> counts the start page once and then, at each of the \<open>n - 1\<close>
  iterations, increments the counter of exactly one page of the graph and leaves the
  others as they are; the counters sum to \<open>n\<close>, each returned rank is the page's count
  divided by \<open>n\<close>, and the returned ranks sum to exactly \<open>1\<close>.
\<close>

theorem sample_pagerank_partition:
  assumes "graph_inv corpus" and "1 \<le> n"
  shows "\<exists>start cur c.
           start \<in> set (keys corpus) \<and>
           sample_init corpus r = Inr (start, tab ((\<lambda>k. 0)(start := 1)) (keys corpus)) \<and>
           (\<forall>i < nat (n - 1). \<exists>cur_i c_i cur'.
              for_loop (sample_step fadd corpus damping rand) [0..<i]
                  (start, tab ((\<lambda>k. 0)(start := 1)) (keys corpus))
                = Inr (cur_i, tab c_i (keys corpus)) \<and>
              cur' \<in> set (keys corpus) \<and>
              for_loop (sample_step fadd corpus damping rand) [0..<Suc i]
                  (start, tab ((\<lambda>k. 0)(start := 1)) (keys corpus))
                = Inr (cur', tab (c_i(cur' := c_i cur' + 1)) (keys corpus))) \<and>
           sample_counts fadd corpus damping n r rand = Inr (cur, tab c (keys corpus)) \<and>
           (\<Sum>k\<leftarrow>keys corpus. c k) = n \<and>
           sample_pagerank fadd corpus damping n r rand
             = Inr (tab (\<lambda>k. real_of_int (c k) / real_of_int n) (keys corpus)) \<and>
           (\<Sum>k\<leftarrow>keys corpus. real_of_int (c k) / real_of_int n) = 1"
proof -
  let ?ks = "keys corpus"
  let ?step = "sample_step fadd corpus damping rand"
  have ks: "distinct ?ks" using assms(1) by (rule graph_inv_distinct)
  obtain start where start: "start \<in> set ?ks"
    "sample_init corpus r = Inr (start, tab ((\<lambda>k. 0)(start := 1)) ?ks)"
    using sample_init_ok [OF assms(1)] by blast
  let ?c0 = "(\<lambda>k. 0::int)(start := 1)"
  have c0: "(\<Sum>k\<leftarrow>?ks. ?c0 k) = 1"
    using sum_list_fun_upd [OF ks start(1), of "\<lambda>k. 0::int" 1] by simp
  have steps: "\<exists>cur_i c_i cur'.
      for_loop ?step [0..<i] (start, tab ?c0 ?ks) = Inr (cur_i, tab c_i ?ks) \<and>
      cur' \<in> set ?ks \<and>
      for_loop ?step [0..<Suc i] (start, tab ?c0 ?ks) = Inr (cur', tab (c_i(cur' := c_i cur' + 1)) ?ks)"
    for i
  proof -
    obtain cur_i c_i where w: "for_loop ?step [0..<i] (start, tab ?c0 ?ks) = Inr (cur_i, tab c_i ?ks)"
      "cur_i \<in> set ?ks"
      using sample_walk_ok [OF assms(1) start(1)] by blast
    obtain cur' where "cur' \<in> set ?ks"
      "?step i (cur_i, tab c_i ?ks) = Inr (cur', tab (c_i(cur' := c_i cur' + 1)) ?ks)"
      using sample_step_ok [OF assms(1) w(2)] by blast
    then show ?thesis using w(1) by (auto simp: for_loop_append)
  qed
  obtain cur c where w: "for_loop ?step [0..<nat (n - 1)] (start, tab ?c0 ?ks) = Inr (cur, tab c ?ks)"
    "(\<Sum>k\<leftarrow>?ks. c k) = (\<Sum>k\<leftarrow>?ks. ?c0 k) + int (nat (n - 1))"
    using sample_walk_ok [OF assms(1) start(1)] by blast
  have total: "(\<Sum>k\<leftarrow>?ks. c k) = n" using w(2) c0 assms(2) by simp
  have counts: "sample_counts fadd corpus damping n r rand = Inr (cur, tab c ?ks)"
    using start(2) w(1) by (simp add: sample_counts_def)
  have n0: "n \<noteq> 0" using assms(2) by simp
  have rank: "sample_pagerank fadd corpus damping n r rand
                = Inr (tab (\<lambda>k. real_of_int (c k) / real_of_int n) ?ks)"
    using counts n0 by (simp add: sample_pagerank_def divide_counts_tab)
  have "(\<Sum>k\<leftarrow>?ks. real_of_int (c k) / real_of_int n) = real_of_int (\<Sum>k\<leftarrow>?ks. c k) / real_of_int n"
    by (simp add: sum_list_divide_const of_int_sum_list_map)
  then have one: "(\<Sum>k\<leftarrow>?ks. real_of_int (c k) / real_of_int n) = 1"
    using total n0 by simp
  show ?thesis
    using start steps counts total rank one by blast
qed

theorem sample_pagerank_partition_witness:
  "graph_inv [(''A'', [''B'']), (''B'', [''A'', ''C'']), (''C'', [''A''])] \<and> (1::int) \<le> 3 \<and>
   sample_pagerank (+) [(''A'', [''B'']), (''B'', [''A'', ''C'']), (''C'', [''A''])] (1 / 2) 3 0
       (fixed_draws (1 / 3))
     = Inr [(''A'', 2 / 3), (''B'', 1 / 3), (''C'', 0)] \<and>
   (\<exists>c. sample_pagerank (+) [(''A'', [''B'']), (''B'', [''A'', ''C'']), (''C'', [''A''])] (1 / 2) 3 0
           (fixed_draws (1 / 3))
         = Inr (tab (\<lambda>k. real_of_int (c k) / real_of_int 3) [''A'', ''B'', ''C'']) \<and>
        (\<Sum>k\<leftarrow>[''A'', ''B'', ''C'']. c k) = 3)"
proof -
  let ?g = "[(''A'', [''B'']), (''B'', [''A'', ''C'']), (''C'', [''A''])]"
  let ?step = "sample_step (+) ?g (1 / 2) (fixed_draws (1 / 3))"
  have inv: "graph_inv ?g" by (simp add: graph_inv_def keys_def)
  have le: "(1::int) \<le> 3" by simp
  have tmA: "transition_model ?g ''A'' (1 / 2) = Inr [(''A'', 1 / 6), (''B'', 2 / 3), (''C'', 1 / 6)]"
    by (simp add: transition_model_def init_dict_def keys_def iadd_def truediv_def)
  have tmB: "transition_model ?g ''B'' (1 / 2) = Inr [(''A'', 5 / 12), (''B'', 1 / 6), (''C'', 5 / 12)]"
    by (simp add: transition_model_def init_dict_def keys_def iadd_def truediv_def)
  have init: "sample_init ?g 0 = Inr (''A'', [(''A'', 1), (''B'', 0), (''C'', 0)])"
    by (simp add: sample_init_def init_dict_def keys_def choice_def iadd_def)
  have s0: "?step 0 (''A'', [(''A'', 1), (''B'', 0), (''C'', 0)])
              = Inr (''B'', [(''A'', 1), (''B'', 1), (''C'', 0)])"
    by (simp add: sample_step_def tmA fixed_draws_def iadd_def Let_def)
  have s1: "?step (Suc 0) (''B'', [(''A'', 1), (''B'', 1), (''C'', 0)])
              = Inr (''A'', [(''A'', 2), (''B'', 1), (''C'', 0)])"
    by (simp add: sample_step_def tmB fixed_draws_def iadd_def Let_def)
  have cnt: "sample_counts (+) ?g (1 / 2) 3 0 (fixed_draws (1 / 3))
               = Inr (''A'', [(''A'', 2), (''B'', 1), (''C'', 0)])"
    by (simp add: sample_counts_def init upt_0_2 s0 s1)
  have run: "sample_pagerank (+) ?g (1 / 2) 3 0 (fixed_draws (1 / 3))
               = Inr [(''A'', 2 / 3), (''B'', 1 / 3), (''C'', 0)]"
    by (simp add: sample_pagerank_def cnt truediv_def)
  have ks: "keys ?g = [''A'', ''B'', ''C'']" by (simp add: keys_def)
  have "\<exists>c. sample_pagerank (+) ?g (1 / 2) 3 0 (fixed_draws (1 / 3))
         = Inr (tab (\<lambda>k. real_of_int (c k) / real_of_int 3) (keys ?g)) \<and>
        (\<Sum>k\<leftarrow>keys ?g. c k) = 3"
    using sample_pagerank_partition [OF inv le, of 0 "(+)" "1 / 2" "fixed_draws (1 / 3)"]
    by (elim exE conjE) (rule exI, rule conjI, assumption+)
  then have ex: "\<exists>c. sample_pagerank (+) ?g (1 / 2) 3 0 (fixed_draws (1 / 3))
         = Inr (tab (\<lambda>k. real_of_int (c k) / real_of_int 3) [''A'', ''B'', ''C'']) \<and>
        (\<Sum>k\<leftarrow>[''A'', ''B'', ''C'']. c k) = 3"
    unfolding ks .
  show ?thesis by (intro conjI inv le run ex)
qed

text \<open>
  Claim C10. On a graph satisfying the Graph invariants, an iteration of the sampling
  loop from a page of the graph never raises and increments exactly one counter,
  however the cumulative sum of line 105 is rounded (for every addition \<open>fadd\<close>); when
  the scan over the weights runs to its end without the cumulative probability reaching
  the draw, the current page stays and it is its counter that is incremented. The
  weights sum to \<open>1\<close>, so with the exact sum \<open>(+)\<close> in place of the rounded one no
  draw of at most \<open>1\<close> runs the scan to its end: the case arises through rounding
  only. After the start page and \<open>m\<close> iterations the counters sum to \<open>1 + m\<close>, the
  number of draws performed.
\<close>

theorem sample_step_fallthrough:
  assumes "graph_inv corpus" and "curr_page \<in> set (keys corpus)"
  shows "\<exists>weight next_page.
           transition_model corpus curr_page damping = Inr weight \<and>
           (scan fadd weight 0 (rand i) = None \<longrightarrow> next_page = curr_page) \<and>
           (rand i \<le> 1 \<longrightarrow> scan (+) weight 0 (rand i) \<noteq> None) \<and>
           next_page \<in> set (keys corpus) \<and>
           sample_step fadd corpus damping rand i (curr_page, tab c (keys corpus))
             = Inr (next_page, tab (c(next_page := c next_page + 1)) (keys corpus)) \<and>
           (\<forall>m. \<exists>st0 cur_m c_m.
              sample_init corpus r = Inr st0 \<and>
              for_loop (sample_step fadd corpus damping rand) [0..<m] st0
                = Inr (cur_m, tab c_m (keys corpus)) \<and>
              (\<Sum>k\<leftarrow>keys corpus. c_m k) = 1 + int m)"
proof -
  let ?ks = "keys corpus"
  have ks: "distinct ?ks" using assms(1) by (rule graph_inv_distinct)
  obtain f where tm: "transition_model corpus curr_page damping = Inr (tab f ?ks)"
    and f1: "(\<Sum>k\<leftarrow>?ks. f k) = 1"
    using transition_model_total [OF assms] by blast
  let ?next = "case scan fadd (tab f ?ks) 0 (rand i) of
                 Some page_name \<Rightarrow> page_name | None \<Rightarrow> curr_page"
  have mem: "?next \<in> set ?ks"
    using assms(2) scan_member [of fadd "tab f ?ks" 0 "rand i"] by (auto split: option.splits)
  have step: "sample_step fadd corpus damping rand i (curr_page, tab c ?ks)
                = Inr (?next, tab (c(?next := c ?next + 1)) ?ks)"
    using tm mem ks by (simp add: sample_step_def iadd_tab setitem_tab Let_def)
  have none: "scan fadd (tab f ?ks) 0 (rand i) = None \<longrightarrow> ?next = curr_page" by simp
  have ne: "tab f ?ks \<noteq> []" using assms(2) by (auto simp: tab_def)
  have found: "rand i \<le> 1 \<longrightarrow> scan (+) (tab f ?ks) 0 (rand i) \<noteq> None"
  proof (intro impI notI)
    assume le: "rand i \<le> 1" and "scan (+) (tab f ?ks) 0 (rand i) = None"
    then have "0 + sum_list (vals (tab f ?ks)) < rand i"
      using ne by (intro scan_None_less)
    then show False using f1 le by simp
  qed
  have total: "\<exists>st0 cur_m c_m.
              sample_init corpus r = Inr st0 \<and>
              for_loop (sample_step fadd corpus damping rand) [0..<m] st0
                = Inr (cur_m, tab c_m ?ks) \<and>
              (\<Sum>k\<leftarrow>?ks. c_m k) = 1 + int m" for m
  proof -
    obtain start where start: "start \<in> set ?ks"
      "sample_init corpus r = Inr (start, tab ((\<lambda>k. 0)(start := 1)) ?ks)"
      using sample_init_ok [OF assms(1)] by blast
    have c0: "(\<Sum>k\<leftarrow>?ks. ((\<lambda>k. 0::int)(start := 1)) k) = 1"
      using sum_list_fun_upd [OF ks start(1), of "\<lambda>k. 0::int" 1] by simp
    obtain cur_m c_m where
      "for_loop (sample_step fadd corpus damping rand) [0..<m]
         (start, tab ((\<lambda>k. 0)(start := 1)) ?ks) = Inr (cur_m, tab c_m ?ks)"
      "(\<Sum>k\<leftarrow>?ks. c_m k) = (\<Sum>k\<leftarrow>?ks. ((\<lambda>k. 0::int)(start := 1)) k) + int m"
      using sample_walk_ok [OF assms(1) start(1), of fadd damping rand m "(\<lambda>k. 0)(start := 1)"]
      by blast
    then show ?thesis
      using start(2) c0
      by (intro exI [of _ "(start, tab ((\<lambda>k. 0)(start := 1)) ?ks)"] exI [of _ cur_m]
          exI [of _ c_m]) simp
  qed
  then have all: "\<forall>m. \<exists>st0 cur_m c_m.
              sample_init corpus r = Inr st0 \<and>
              for_loop (sample_step fadd corpus damping rand) [0..<m] st0
                = Inr (cur_m, tab c_m ?ks) \<and>
              (\<Sum>k\<leftarrow>?ks. c_m k) = 1 + int m"
    by (rule allI)
  show ?thesis
    by (intro exI [of _ "tab f ?ks"] exI [of _ ?next] conjI tm none found mem step all)
qed

text \<open>
  The instance: seven pages without links, the float addition, and the largest value
  \<^verbatim>\<open>random.random()\<close> returns, \<open>1 - 1 / 2 ^ 53\<close>. Every weight is \<open>1 / 7\<close>, in
  the program the double nearest to it, which is what \<open>float_add\<close> adds; the seven
  float additions of line 105 end at \<open>1 - 1 / 2 ^ 52\<close>
  (\<^verbatim>\<open>0.9999999999999998\<close>), below the draw, so the scan finds no page and the
  current page \<open>A\<close> is counted again. The exact sum reaches \<open>1\<close> at the last page
  \<open>G\<close>.
\<close>

theorem sample_step_fallthrough_witness:
  "graph_inv [(''A'', []), (''B'', []), (''C'', []), (''D'', []), (''E'', []), (''F'', []),
      (''G'', [])] \<and>
   ''A'' \<in> set (keys ([(''A'', []), (''B'', []), (''C'', []), (''D'', []), (''E'', []),
      (''F'', []), (''G'', [])] :: corpus)) \<and>
   transition_model [(''A'', []), (''B'', []), (''C'', []), (''D'', []), (''E'', []),
       (''F'', []), (''G'', [])] ''A'' (85 / 100)
     = Inr [(''A'', 1 / 7), (''B'', 1 / 7), (''C'', 1 / 7), (''D'', 1 / 7), (''E'', 1 / 7),
         (''F'', 1 / 7), (''G'', 1 / 7)] \<and>
   fixed_draws (9007199254740991 / 9007199254740992) 0 \<le> 1 \<and>
   scan float_add [(''A'', 1 / 7), (''B'', 1 / 7), (''C'', 1 / 7), (''D'', 1 / 7),
       (''E'', 1 / 7), (''F'', 1 / 7), (''G'', 1 / 7)] 0
       (fixed_draws (9007199254740991 / 9007199254740992) 0) = None \<and>
   scan (+) [(''A'', 1 / 7), (''B'', 1 / 7), (''C'', 1 / 7), (''D'', 1 / 7),
       (''E'', 1 / 7), (''F'', 1 / 7), (''G'', 1 / 7)] 0
       (fixed_draws (9007199254740991 / 9007199254740992) 0) = Some ''G'' \<and>
   sample_step float_add [(''A'', []), (''B'', []), (''C'', []), (''D'', []), (''E'', []),
       (''F'', []), (''G'', [])] (85 / 100)
       (fixed_draws (9007199254740991 / 9007199254740992)) 0
       (''A'', [(''A'', 1), (''B'', 0), (''C'', 0), (''D'', 0), (''E'', 0), (''F'', 0),
          (''G'', 0)])
     = Inr (''A'', [(''A'', 2), (''B'', 0), (''C'', 0), (''D'', 0), (''E'', 0), (''F'', 0),
          (''G'', 0)])"
proof -
  let ?g = "[(''A'', []), (''B'', []), (''C'', []), (''D'', []), (''E'', []), (''F'', []),
      (''G'', [])] :: corpus"
  let ?w = "[(''A'', 1 / 7), (''B'', 1 / 7), (''C'', 1 / 7), (''D'', 1 / 7), (''E'', 1 / 7),
      (''F'', 1 / 7), (''G'', 1 / 7)] :: real dict"
  let ?x = "9007199254740991 / 9007199254740992 :: real"
  let ?c = "(\<lambda>k. 0::int)(''A'' := 1)"
  have inv: "graph_inv ?g" by (simp add: graph_inv_def keys_def)
  have key: "''A'' \<in> set (keys ?g)" by (simp add: keys_def)
  have ks: "keys ?g = [''A'', ''B'', ''C'', ''D'', ''E'', ''F'', ''G'']" by (simp add: keys_def)
  have tm: "transition_model ?g ''A'' (85 / 100) = Inr ?w"
    by (simp add: transition_model_def init_dict_def keys_def truediv_def)
  have le: "fixed_draws ?x 0 \<le> 1" by (simp add: fixed_draws_def)
  have a1: "float_add 0 (1 / 7) = 2573485501354569 / 18014398509481984"
    by (rule float_add_seventh_1)
  have sc: "scan float_add ?w 0 (fixed_draws ?x 0) = None"
    by (simp add: fixed_draws_def Let_def float_add_seventh_1 float_add_seventh_2
        float_add_seventh_3 float_add_seventh_4 float_add_seventh_5 float_add_seventh_6
        float_add_seventh_7)
  have ex: "scan (+) ?w 0 (fixed_draws ?x 0) = Some ''G''"
    by (simp add: fixed_draws_def Let_def)
  have "\<exists>weight next_page.
      transition_model ?g ''A'' (85 / 100) = Inr weight \<and>
      (scan float_add weight 0 (fixed_draws ?x 0) = None \<longrightarrow> next_page = ''A'') \<and>
      sample_step float_add ?g (85 / 100) (fixed_draws ?x) 0 (''A'', tab ?c (keys ?g))
        = Inr (next_page, tab (?c(next_page := ?c next_page + 1)) (keys ?g))"
    using sample_step_fallthrough [OF inv key, of "85 / 100" float_add "fixed_draws ?x" 0 ?c 0]
    by (elim exE conjE) (rule exI, rule exI, rule conjI, assumption, rule conjI, assumption+)
  then obtain weight next_page where w:
    "transition_model ?g ''A'' (85 / 100) = Inr weight"
    "scan float_add weight 0 (fixed_draws ?x 0) = None \<longrightarrow> next_page = ''A''"
    "sample_step float_add ?g (85 / 100) (fixed_draws ?x) 0 (''A'', tab ?c (keys ?g))
       = Inr (next_page, tab (?c(next_page := ?c next_page + 1)) (keys ?g))"
    by (elim exE conjE)
  have "weight = ?w" using w(1) tm by simp
  then have "next_page = ''A''" using w(2) sc by simp
  then have "sample_step float_add ?g (85 / 100) (fixed_draws ?x) 0 (''A'', tab ?c (keys ?g))
       = Inr (''A'', tab (?c(''A'' := ?c ''A'' + 1)) (keys ?g))"
    using w(3) by simp
  then have st: "sample_step float_add ?g (85 / 100) (fixed_draws ?x) 0
       (''A'', [(''A'', 1), (''B'', 0), (''C'', 0), (''D'', 0), (''E'', 0), (''F'', 0),
          (''G'', 0)])
     = Inr (''A'', [(''A'', 2), (''B'', 0), (''C'', 0), (''D'', 0), (''E'', 0), (''F'', 0),
          (''G'', 0)])"
    unfolding ks by simp
  show ?thesis by (intro conjI inv key tm le sc ex st)
qed

section \<open>The rounds of the iterative solver\<close>

lemma keys_Nil [simp]: "keys [] = []"
  by (simp add: keys_def)

lemma for_loop_keys_sum:
  assumes "\<And>q links acc. (q, links) \<in> set items \<Longrightarrow> body q acc = Inr (acc + h (q, links))"
  shows "for_loop body (map fst items) acc = Inr (acc + (\<Sum>x\<leftarrow>items. h x :: real))"
  using assms
proof (induction items arbitrary: acc)
  case Nil
  then show ?case by simp
next
  case (Cons x items)
  obtain q links where x: "x = (q, links)" by (cases x)
  have "body q acc = Inr (acc + h (q, links))" using Cons.prems x by simp
  moreover have "for_loop body (map fst items) (acc + h (q, links))
                   = Inr (acc + h (q, links) + (\<Sum>x\<leftarrow>items. h x))"
    using Cons.prems by (intro Cons.IH) simp
  ultimately show ?case using x by (simp add: add.assoc)
qed

lemma prob_choice_tab:
  assumes "distinct (keys corpus)" and "prob_all = 1 / real (length corpus)"
  shows "prob_choice corpus (tab PR (keys corpus)) prob_all page =
           Inr (\<Sum>q\<leftarrow>corpus. contribution (length corpus) PR q page)"
proof -
  let ?body = "\<lambda>other_page prob_choice.
         (case getitem corpus other_page of Inl e \<Rightarrow> Inl e
          | Inr links \<Rightarrow>
             (if length links = 0 then
                (case getitem (tab PR (keys corpus)) other_page of Inl e \<Rightarrow> Inl e
                 | Inr rank \<Rightarrow> Inr (prob_choice + rank * prob_all))
              else if page \<in> set links then
                (case getitem (tab PR (keys corpus)) other_page of Inl e \<Rightarrow> Inl e
                 | Inr rank \<Rightarrow>
                    (case truediv rank (real (length links)) of Inl e \<Rightarrow> Inl e
                     | Inr c \<Rightarrow> Inr (prob_choice + c)))
              else Inr prob_choice))"
  have step: "?body q acc = Inr (acc + contribution (length corpus) PR (q, links) page)"
    if "(q, links) \<in> set corpus" for q links acc
  proof -
    have "getitem corpus q = Inr links" using assms(1) that by (rule getitem_member)
    moreover have "q \<in> set (keys corpus)" using that by (force simp: keys_def)
    ultimately show ?thesis
      using assms(2) by (auto simp: getitem_tab contribution_def truediv_def)
  qed
  have "for_loop ?body (map fst corpus) 0 =
          Inr (0 + (\<Sum>x\<leftarrow>corpus. contribution (length corpus) PR x page))"
    using step by (rule for_loop_keys_sum)
  then show ?thesis unfolding prob_choice_def keys_def by simp
qed

lemma update_ranks_tab:
  assumes "distinct (keys corpus)" and "corpus \<noteq> []"
    and "prob_random = (1 - d) / real (length corpus)" and "prob_all = 1 / real (length corpus)"
  shows "update_ranks corpus d prob_random prob_all (tab PR (keys corpus)) =
           Inr (tab (spec_rank corpus d PR) (keys corpus))"
proof -
  have "for_loop (\<lambda>page new_pagerank.
         (case prob_choice corpus (tab PR (keys corpus)) prob_all page of Inl e \<Rightarrow> Inl e
          | Inr pc \<Rightarrow> Inr (setitem new_pagerank page (prob_random + d * pc))))
         (keys corpus) [] = Inr ([] @ tab (spec_rank corpus d PR) (keys corpus))"
    using assms by (intro for_loop_setitem_new) (simp_all add: prob_choice_tab spec_rank_def)
  then show ?thesis by (simp add: update_ranks_def)
qed

lemma for_loop_normalize:
  assumes "distinct ks" and "distinct ls" and "set ls \<subseteq> set ks" and "tot \<noteq> 0"
  shows "for_loop (\<lambda>(page, rank) new_pagerank.
            (case truediv rank tot of Inl e \<Rightarrow> Inl e
             | Inr v \<Rightarrow> Inr (setitem new_pagerank page v)))
          (tab F ls) (tab G ks) =
         Inr (tab (\<lambda>k. if k \<in> set ls then F k / tot else G k) ks)"
  using assms(2,3)
proof (induction ls arbitrary: G)
  case Nil
  then show ?case by simp
next
  case (Cons l ls)
  let ?G' = "G(l := F l / tot)"
  have "for_loop (\<lambda>(page, rank) new_pagerank.
            (case truediv rank tot of Inl e \<Rightarrow> Inl e
             | Inr v \<Rightarrow> Inr (setitem new_pagerank page v)))
          (tab F ls) (tab ?G' ks) =
         Inr (tab (\<lambda>k. if k \<in> set ls then F k / tot else ?G' k) ks)"
    using Cons.prems by (intro Cons.IH) auto
  moreover have "tab (\<lambda>k. if k \<in> set ls then F k / tot else ?G' k) ks
                 = tab (\<lambda>k. if k \<in> set (l # ls) then F k / tot else G k) ks"
    by (rule tab_cong) auto
  ultimately show ?case
    using Cons.prems assms(1,4) by (simp add: truediv_def setitem_tab)
qed

lemma normalize_tab:
  assumes "distinct ks" and "(\<Sum>k\<leftarrow>ks. F k) \<noteq> 0"
  shows "normalize (tab F ks) = Inr (tab (\<lambda>k. F k / (\<Sum>k\<leftarrow>ks. F k)) ks)"
proof -
  have "tab (\<lambda>k. if k \<in> set ks then F k / (\<Sum>k\<leftarrow>ks. F k) else F k) ks
        = tab (\<lambda>k. F k / (\<Sum>k\<leftarrow>ks. F k)) ks"
    by (rule tab_cong) simp
  then show ?thesis
    using for_loop_normalize [OF assms(1) assms(1) subset_refl assms(2), of F F]
    by (simp add: normalize_def Let_def)
qed

lemma normalize_zero:
  assumes "ks \<noteq> []" and "(\<Sum>k\<leftarrow>ks. F k) = 0"
  shows "normalize (tab F ks) = Inl ZeroDivisionError"
proof -
  obtain a list where ks: "ks = a # list" using assms(1) by (cases ks) auto
  have "sum_list (vals ((a, F a) # tab F list)) = 0"
    using assms(2) ks by (simp add: vals_def tab_def comp_def)
  then show ?thesis
    by (simp add: ks normalize_def Let_def truediv_def)
qed

lemma for_loop_pure:
  assumes "\<And>x acc. x \<in> set xs \<Longrightarrow> body x acc = Inr (g x acc)"
  shows "for_loop body xs acc = Inr (fold g xs acc)"
  using assms by (induction xs arbitrary: acc) simp_all

lemma max_change_tab:
  "max_change corpus (tab PR (keys corpus)) (tab NR (keys corpus)) =
     Inr (fold (\<lambda>k m. max m \<bar>PR k - NR k\<bar>) (keys corpus) 0)"
  unfolding max_change_def
  by (rule for_loop_pure) (simp add: getitem_tab)


lemma iterate_round_tab:
  assumes "distinct (keys corpus)" and "corpus \<noteq> []"
    and "prob_random = (1 - d) / real (length corpus)" and "prob_all = 1 / real (length corpus)"
    and "(\<Sum>k\<leftarrow>keys corpus. spec_rank corpus d PR k) \<noteq> 0"
  shows "iterate_round corpus d prob_random prob_all (tab PR (keys corpus)) =
           Inr (tab (\<lambda>k. spec_rank corpus d PR k / (\<Sum>k\<leftarrow>keys corpus. spec_rank corpus d PR k))
                  (keys corpus),
                fold (\<lambda>k m. max m \<bar>PR k -
                    spec_rank corpus d PR k / (\<Sum>k\<leftarrow>keys corpus. spec_rank corpus d PR k)\<bar>)
                  (keys corpus) 0)"
  using assms
  by (simp add: iterate_round_def update_ranks_tab normalize_tab max_change_tab)

lemma iterate_round_zero:
  assumes "distinct (keys corpus)" and "corpus \<noteq> []"
    and "prob_random = (1 - d) / real (length corpus)" and "prob_all = 1 / real (length corpus)"
    and "(\<Sum>k\<leftarrow>keys corpus. spec_rank corpus d PR k) = 0"
  shows "iterate_round corpus d prob_random prob_all (tab PR (keys corpus)) =
           Inl ZeroDivisionError"
proof -
  have "keys corpus \<noteq> []" using assms(2) by (simp add: keys_def)
  then show ?thesis
    using assms by (simp add: iterate_round_def update_ranks_tab normalize_zero)
qed





















lemma for_loop_setitem_shape:
  assumes "distinct ks" and "set ks \<inter> set (keys acc) = {}"
    and "for_loop (\<lambda>k np. (case F k of Inl e \<Rightarrow> Inl e | Inr v \<Rightarrow> Inr (setitem np k (g v)))) ks acc
         = Inr t"
  shows "\<exists>G. t = acc @ tab G ks"
  using assms
proof (induction ks arbitrary: acc)
  case Nil
  then show ?case by simp
next
  case (Cons k ks)
  obtain v where v: "F k = Inr v"
    using Cons.prems(3) by (cases "F k") simp_all
  have new: "setitem acc k (g v) = acc @ [(k, g v)]"
    using Cons.prems(2) by (simp add: setitem_append_new)
  have "set ks \<inter> set (keys (acc @ [(k, g v)])) = {}"
    using Cons.prems(1,2) by (auto simp: keys_def)
  moreover have "for_loop (\<lambda>k np. (case F k of Inl e \<Rightarrow> Inl e | Inr v \<Rightarrow> Inr (setitem np k (g v))))
                   ks (acc @ [(k, g v)]) = Inr t"
    using Cons.prems(3) v new by simp
  moreover have "distinct ks" using Cons.prems(1) by simp
  ultimately have "\<exists>G. t = (acc @ [(k, g v)]) @ tab G ks"
    by (intro Cons.IH)
  then obtain G where G: "t = (acc @ [(k, g v)]) @ tab G ks" ..
  have "k \<notin> set ks" using Cons.prems(1) by simp
  then have "tab (G(k := g v)) ks = tab G ks" by (intro tab_cong) auto
  then have "t = acc @ tab (G(k := g v)) (k # ks)" using G by simp
  then show ?case by blast
qed

lemma update_ranks_shape:
  assumes "distinct (keys corpus)"
    and "update_ranks corpus d prob_random prob_all pagerank = Inr t"
  shows "\<exists>G. t = tab G (keys corpus)"
proof -
  have "\<exists>G. t = [] @ tab G (keys corpus)"
  proof (rule for_loop_setitem_shape [OF assms(1)])
    show "set (keys corpus) \<inter> set (keys ([] :: real dict)) = {}" by simp
    show "for_loop (\<lambda>k np. (case prob_choice corpus pagerank prob_all k of Inl e \<Rightarrow> Inl e
                                 | Inr v \<Rightarrow> Inr (setitem np k (prob_random + d * v))))
            (keys corpus) [] = Inr t"
      using assms(2) by (simp add: update_ranks_def)
  qed
  then show ?thesis by simp
qed

lemma normalize_shape:
  assumes "distinct ks" and "ks \<noteq> []" and "normalize (tab G ks) = Inr new"
  shows "(\<Sum>k\<leftarrow>ks. G k) \<noteq> 0 \<and> new = tab (\<lambda>k. G k / (\<Sum>k\<leftarrow>ks. G k)) ks"
proof (cases "(\<Sum>k\<leftarrow>ks. G k) = 0")
  case True
  then show ?thesis using assms(2,3) by (simp add: normalize_zero)
next
  case False
  then show ?thesis using assms(1,3) by (simp add: normalize_tab)
qed

lemma iterate_round_shape:
  assumes "distinct (keys corpus)" and "corpus \<noteq> []"
    and "iterate_round corpus d prob_random prob_all pagerank = Inr (new, change)"
  shows "\<exists>G. new = tab G (keys corpus) \<and> (\<Sum>k\<leftarrow>keys corpus. G k) = 1"
proof -
  obtain t where t: "update_ranks corpus d prob_random prob_all pagerank = Inr t"
    and n: "normalize t = Inr new"
    using assms(3) by (auto simp: iterate_round_def split: sum.splits)
  obtain G where G: "t = tab G (keys corpus)"
    using update_ranks_shape [OF assms(1) t] by blast
  have ne: "keys corpus \<noteq> []" using assms(2) by (simp add: keys_def)
  have s: "(\<Sum>k\<leftarrow>keys corpus. G k) \<noteq> 0"
    and new: "new = tab (\<lambda>k. G k / (\<Sum>k\<leftarrow>keys corpus. G k)) (keys corpus)"
    using normalize_shape [OF assms(1) ne] n G by simp_all
  have "(\<Sum>k\<leftarrow>keys corpus. G k / (\<Sum>k\<leftarrow>keys corpus. G k)) = 1"
    using s by (simp add: sum_list_divide_const)
  then show ?thesis using new by blast
qed


text \<open>A run on the two-page cycle, evaluated round by round.\<close>

lemmas round_defs = iterate_round_def update_ranks_def prob_choice_def normalize_def
  max_change_def keys_def vals_def truediv_def






lemma rounds_shape:
  assumes "distinct (keys corpus)" and "corpus \<noteq> []"
    and "rounds corpus d prob_random prob_all k t0 = Inr t" and "\<exists>P. t0 = tab P (keys corpus)"
  shows "\<exists>P. t = tab P (keys corpus)"
  using assms(3,4)
proof (induction k arbitrary: t0)
  case 0
  then show ?case by simp
next
  case (Suc k)
  obtain new change where r: "iterate_round corpus d prob_random prob_all t0 = Inr (new, change)"
    and rest: "rounds corpus d prob_random prob_all k new = Inr t"
    using Suc.prems(1) by (auto split: sum.splits)
  have "\<exists>P. new = tab P (keys corpus)"
    using iterate_round_shape [OF assms(1,2) r] by blast
  with rest show ?case by (rule Suc.IH)
qed






text \<open>Runs on the two-page cycle with a damping factor above \<open>1\<close> and one below \<open>0\<close>.\<close>

lemma two_cycle_run_above:
  "iterate_pagerank [(''A'', [''B'']), (''B'', [''A''])] (3 / 2)
   = Some (Inr [(''A'', 1 / 2), (''B'', 1 / 2)])"
proof -
  let ?g = "[(''A'', [''B'']), (''B'', [''A''])]"
  have r1: "iterate_round ?g (3 / 2) (- (1 / 4)) (1 / 2) [(''A'', - (1 / 4)), (''B'', - (1 / 4))]
            = Inr ([(''A'', 1 / 2), (''B'', 1 / 2)], 3 / 4)"
    by (simp add: round_defs)
  have r2: "iterate_round ?g (3 / 2) (- (1 / 4)) (1 / 2) [(''A'', 1 / 2), (''B'', 1 / 2)]
            = Inr ([(''A'', 1 / 2), (''B'', 1 / 2)], 0)"
    by (simp add: round_defs)
  have l2: "iterate_loop ?g (3 / 2) (- (1 / 4)) (1 / 2) [(''A'', 1 / 2), (''B'', 1 / 2)]
            = Some (Inr [(''A'', 1 / 2), (''B'', 1 / 2)])"
    by (subst iterate_loop.simps) (simp add: r2)
  have l1: "iterate_loop ?g (3 / 2) (- (1 / 4)) (1 / 2) [(''A'', - (1 / 4)), (''B'', - (1 / 4))]
            = Some (Inr [(''A'', 1 / 2), (''B'', 1 / 2)])"
    by (subst iterate_loop.simps) (simp add: r1 l2)
  show ?thesis
    by (simp add: iterate_pagerank_def truediv_def init_dict_def keys_def l1)
qed

lemma two_cycle_run_below:
  "iterate_pagerank [(''A'', [''B'']), (''B'', [''A''])] (- (1 / 2))
   = Some (Inr [(''A'', 1 / 2), (''B'', 1 / 2)])"
proof -
  let ?g = "[(''A'', [''B'']), (''B'', [''A''])]"
  have r1: "iterate_round ?g (- (1 / 2)) (3 / 4) (1 / 2) [(''A'', 3 / 4), (''B'', 3 / 4)]
            = Inr ([(''A'', 1 / 2), (''B'', 1 / 2)], 1 / 4)"
    by (simp add: round_defs)
  have r2: "iterate_round ?g (- (1 / 2)) (3 / 4) (1 / 2) [(''A'', 1 / 2), (''B'', 1 / 2)]
            = Inr ([(''A'', 1 / 2), (''B'', 1 / 2)], 0)"
    by (simp add: round_defs)
  have l2: "iterate_loop ?g (- (1 / 2)) (3 / 4) (1 / 2) [(''A'', 1 / 2), (''B'', 1 / 2)]
            = Some (Inr [(''A'', 1 / 2), (''B'', 1 / 2)])"
    by (subst iterate_loop.simps) (simp add: r2)
  have l1: "iterate_loop ?g (- (1 / 2)) (3 / 4) (1 / 2) [(''A'', 3 / 4), (''B'', 3 / 4)]
            = Some (Inr [(''A'', 1 / 2), (''B'', 1 / 2)])"
    by (subst iterate_loop.simps) (simp add: r1 l2)
  show ?thesis
    by (simp add: iterate_pagerank_def truediv_def init_dict_def keys_def l1)
qed


lemma sink_pair_round:
  "iterate_round [(''A'', [''B'']), (''B'', [])] (1 / 2) (1 / 4) (1 / 2)
     [(''A'', 1 / 4), (''B'', 1 / 4)]
   = Inr ([(''A'', 5 / 12), (''B'', 7 / 12)], 1 / 3)"
  by (simp add: round_defs)


section \<open>The update equation\<close>

text \<open>
  Claim C1. On a graph satisfying the Graph invariants, for every damping factor (those
  of \<open>[0,1]\<close> included), lines 142-150 compute from the table \<open>PR\<close> of the previous
  round the new rank \<open>(1 - damping)/N + damping * \<Sum>q contribution(q, p)\<close> of every page
  \<open>p\<close>, with every contribution taken from \<open>PR\<close> and none from a rank stored in the
  same round; the table a round leaves is this one divided by its sum, and every table
  the loop hands to a round is a table over the pages of the graph.
\<close>

theorem update_equation:
  assumes "graph_inv corpus"
  shows "update_ranks corpus damping ((1 - damping) / real (length corpus))
             (1 / real (length corpus)) (tab PR (keys corpus))
           = Inr (tab (spec_rank corpus damping PR) (keys corpus)) \<and>
         (iterate_round corpus damping ((1 - damping) / real (length corpus))
             (1 / real (length corpus)) (tab PR (keys corpus)) = Inr (new, change) \<longrightarrow>
            new = tab (pure_step corpus damping PR) (keys corpus)) \<and>
         (rounds corpus damping ((1 - damping) / real (length corpus))
             (1 / real (length corpus)) k
             (init_dict corpus ((1 - damping) / real (length corpus))) = Inr t \<longrightarrow>
            (\<exists>PR. t = tab PR (keys corpus)))"
proof -
  have dk: "distinct (keys corpus)" using assms by (rule graph_inv_distinct)
  have ne: "corpus \<noteq> []" using graph_inv_length [OF assms] by auto
  have upd: "update_ranks corpus damping ((1 - damping) / real (length corpus))
             (1 / real (length corpus)) (tab PR (keys corpus))
           = Inr (tab (spec_rank corpus damping PR) (keys corpus))"
    using dk ne refl refl by (rule update_ranks_tab)
  have round: "iterate_round corpus damping ((1 - damping) / real (length corpus))
             (1 / real (length corpus)) (tab PR (keys corpus)) = Inr (new, change) \<longrightarrow>
            new = tab (pure_step corpus damping PR) (keys corpus)"
  proof
    assume r: "iterate_round corpus damping ((1 - damping) / real (length corpus))
             (1 / real (length corpus)) (tab PR (keys corpus)) = Inr (new, change)"
    show "new = tab (pure_step corpus damping PR) (keys corpus)"
    proof (cases "(\<Sum>k\<leftarrow>keys corpus. spec_rank corpus damping PR k) = 0")
      case True
      then show ?thesis
        using r iterate_round_zero [OF dk ne refl refl, of damping PR] by simp
    next
      case False
      then show ?thesis
        using r iterate_round_tab [OF dk ne refl refl, of damping PR]
        by (simp add: pure_step_def)
    qed
  qed
  have shape: "rounds corpus damping ((1 - damping) / real (length corpus))
             (1 / real (length corpus)) k
             (init_dict corpus ((1 - damping) / real (length corpus))) = Inr t \<longrightarrow>
            (\<exists>PR. t = tab PR (keys corpus))"
  proof
    assume r: "rounds corpus damping ((1 - damping) / real (length corpus))
             (1 / real (length corpus)) k
             (init_dict corpus ((1 - damping) / real (length corpus))) = Inr t"
    have "init_dict corpus ((1 - damping) / real (length corpus))
            = tab (\<lambda>p. (1 - damping) / real (length corpus)) (keys corpus)"
      using dk by (simp add: init_dict_tab)
    then have i: "\<exists>P. init_dict corpus ((1 - damping) / real (length corpus))
                       = tab P (keys corpus)"
      by blast
    show "\<exists>PR. t = tab PR (keys corpus)"
      using dk ne r i by (rule rounds_shape)
  qed
  show ?thesis by (intro conjI upd round shape)
qed

theorem update_equation_witness:
  "graph_inv [(''A'', [''B'']), (''B'', [''A'', ''C'']), (''C'', [''A''])] \<and>
   update_ranks [(''A'', [''B'']), (''B'', [''A'', ''C'']), (''C'', [''A''])] (1 / 2) (1 / 6) (1 / 3)
       [(''A'', 1 / 6), (''B'', 1 / 6), (''C'', 1 / 6)]
     = Inr [(''A'', 7 / 24), (''B'', 1 / 4), (''C'', 5 / 24)] \<and>
   iterate_round [(''A'', [''B'']), (''B'', [])] (1 / 2) (1 / 4) (1 / 2)
       [(''A'', 1 / 4), (''B'', 1 / 4)]
     = Inr ([(''A'', 5 / 12), (''B'', 7 / 12)], 1 / 3) \<and>
   [(''A'', 5 / 12), (''B'', 7 / 12)]
     = tab (pure_step [(''A'', [''B'']), (''B'', [])] (1 / 2) (\<lambda>p. 1 / 4)) [''A'', ''B''] \<and>
   rounds [(''A'', [''B'']), (''B'', [])] (1 / 2) (1 / 4) (1 / 2) 1
       [(''A'', 1 / 4), (''B'', 1 / 4)]
     = Inr [(''A'', 5 / 12), (''B'', 7 / 12)] \<and>
   (\<exists>PR. [(''A'', 5 / 12 :: real), (''B'', 7 / 12)] = tab PR [''A'', ''B''])"
proof -
  let ?g = "[(''A'', [''B'']), (''B'', [''A'', ''C'']), (''C'', [''A''])]"
  let ?h = "[(''A'', [''B'']), (''B'', [])]"
  have inv: "graph_inv ?g" by (simp add: graph_inv_def keys_def)
  have invh: "graph_inv ?h" by (simp add: graph_inv_def keys_def)
  have ks: "keys ?g = [''A'', ''B'', ''C'']" and ksh: "keys ?h = [''A'', ''B'']"
    by (simp_all add: keys_def)
  have pr: "(1 - 1 / 2) / real (length ?g) = 1 / 6" "1 / real (length ?g) = 1 / 3" by simp_all
  have prh: "(1 - 1 / 2) / real (length ?h) = 1 / 4" "1 / real (length ?h) = 1 / 2" by simp_all
  have inith: "init_dict ?h (1 / 4 :: real) = [(''A'', 1 / 4), (''B'', 1 / 4)]"
    by (simp add: init_dict_def keys_def)
  have spec: "tab (spec_rank ?g (1 / 2) (\<lambda>p. 1 / 6)) [''A'', ''B'', ''C'']
              = [(''A'', 7 / 24), (''B'', 1 / 4), (''C'', 5 / 24)]"
    by (simp add: spec_rank_def contribution_def tab_def)
  have t6: "tab (\<lambda>p. 1 / 6 :: real) [''A'', ''B'', ''C'']
            = [(''A'', 1 / 6), (''B'', 1 / 6), (''C'', 1 / 6)]"
    and t4: "tab (\<lambda>p. 1 / 4 :: real) [''A'', ''B''] = [(''A'', 1 / 4), (''B'', 1 / 4)]"
    by (simp_all add: tab_def)
  have "update_ranks ?g (1 / 2) ((1 - 1 / 2) / real (length ?g)) (1 / real (length ?g))
          (tab (\<lambda>p. 1 / 6) (keys ?g))
        = Inr (tab (spec_rank ?g (1 / 2) (\<lambda>p. 1 / 6)) (keys ?g))"
    by (rule update_equation [OF inv, of "1 / 2" "\<lambda>p. 1 / 6", THEN conjunct1])
  then have u: "update_ranks ?g (1 / 2) (1 / 6) (1 / 3)
                  [(''A'', 1 / 6), (''B'', 1 / 6), (''C'', 1 / 6)]
                = Inr [(''A'', 7 / 24), (''B'', 1 / 4), (''C'', 5 / 24)]"
    unfolding pr ks spec t6 .
  have rfull: "iterate_round ?h (1 / 2) ((1 - 1 / 2) / real (length ?h)) (1 / real (length ?h))
          (tab (\<lambda>p. 1 / 4) (keys ?h)) = Inr ([(''A'', 5 / 12), (''B'', 7 / 12)], 1 / 3)"
    unfolding prh ksh t4 by (rule sink_pair_round)
  have "[(''A'', 5 / 12), (''B'', 7 / 12)] = tab (pure_step ?h (1 / 2) (\<lambda>p. 1 / 4)) (keys ?h)"
    by (rule update_equation [OF invh, of "1 / 2" "\<lambda>p. 1 / 4"
        "[(''A'', 5 / 12), (''B'', 7 / 12)]" "1 / 3", THEN conjunct2, THEN conjunct1, THEN mp,
        OF rfull])
  then have n: "[(''A'', 5 / 12), (''B'', 7 / 12)]
                = tab (pure_step ?h (1 / 2) (\<lambda>p. 1 / 4)) [''A'', ''B'']"
    unfolding ksh .
  have r1: "rounds ?h (1 / 2) (1 / 4) (1 / 2) 1 [(''A'', 1 / 4), (''B'', 1 / 4)]
              = Inr [(''A'', 5 / 12), (''B'', 7 / 12)]"
    by (simp add: sink_pair_round)
  have r1full: "rounds ?h (1 / 2) ((1 - 1 / 2) / real (length ?h)) (1 / real (length ?h)) 1
          (init_dict ?h ((1 - 1 / 2) / real (length ?h)))
        = Inr [(''A'', 5 / 12), (''B'', 7 / 12)]"
    unfolding prh inith by (rule r1)
  have "\<exists>PR. [(''A'', 5 / 12 :: real), (''B'', 7 / 12)] = tab PR (keys ?h)"
    by (rule update_equation [OF invh, of "1 / 2" "\<lambda>p. 1 / 4" "[]" 0 1
        "[(''A'', 5 / 12), (''B'', 7 / 12)]", THEN conjunct2, THEN conjunct2, THEN mp,
        OF r1full])
  then have ex: "\<exists>PR. [(''A'', 5 / 12 :: real), (''B'', 7 / 12)] = tab PR [''A'', ''B'']"
    unfolding ksh .
  show ?thesis
    by (intro conjI inv u sink_pair_round n r1 ex)
qed

section \<open>The initial ranks\<close>

text \<open>
  Claim C4 fails on the code. Line 134 stores \<^verbatim>\<open>prob_random\<close>, that is
  \<open>(1 - damping)/N\<close>, as the initial rank of every page, and not \<open>1/N\<close>, which line
  132 computes as \<^verbatim>\<open>prob_all\<close> and the loop uses for sinks only: on a graph
  satisfying the Graph invariants the first round starts from the table that gives every
  page \<open>(1 - damping)/N\<close>, which is \<open>1/N\<close> for the damping factor \<open>0\<close> and for no
  other.
\<close>

theorem iterate_pagerank_initial_ranks:
  assumes "graph_inv corpus"
  shows "init_dict corpus ((1 - damping) / real (length corpus))
           = tab (\<lambda>p. (1 - damping) / real (length corpus)) (keys corpus) \<and>
         iterate_pagerank corpus damping
           = iterate_loop corpus damping ((1 - damping) / real (length corpus))
               (1 / real (length corpus))
               (tab (\<lambda>p. (1 - damping) / real (length corpus)) (keys corpus)) \<and>
         ((1 - damping) / real (length corpus) = 1 / real (length corpus) \<longleftrightarrow> damping = 0)"
proof -
  have N: "0 < length corpus" using assms by (rule graph_inv_length)
  have i: "init_dict corpus ((1 - damping) / real (length corpus))
           = tab (\<lambda>p. (1 - damping) / real (length corpus)) (keys corpus)"
    using graph_inv_distinct [OF assms] by (simp add: init_dict_tab)
  have l: "iterate_pagerank corpus damping
           = iterate_loop corpus damping ((1 - damping) / real (length corpus))
               (1 / real (length corpus))
               (tab (\<lambda>p. (1 - damping) / real (length corpus)) (keys corpus))"
    using N i by (simp add: iterate_pagerank_def truediv_def)
  have e: "(1 - damping) / real (length corpus) = 1 / real (length corpus) \<longleftrightarrow> damping = 0"
    using N by (simp add: divide_simps)
  show ?thesis by (intro conjI i l e)
qed

text \<open>
  The two-page cycle with the damping factor \<open>1/2\<close>: every page starts at \<open>1/4\<close>,
  where the claim says \<open>1/2\<close>.
\<close>

theorem iterate_pagerank_initial_ranks_witness:
  "graph_inv [(''A'', [''B'']), (''B'', [''A''])] \<and>
   init_dict [(''A'', [''B'']), (''B'', [''A''])] ((1 - 1 / 2) / real (length [(''A'', [''B'']), (''B'', [''A''])]))
     = [(''A'', 1 / 4), (''B'', 1 / 4)] \<and>
   iterate_pagerank [(''A'', [''B'']), (''B'', [''A''])] (1 / 2)
     = iterate_loop [(''A'', [''B'']), (''B'', [''A''])] (1 / 2) (1 / 4) (1 / 2)
         [(''A'', 1 / 4), (''B'', 1 / 4)] \<and>
   (1 - 1 / 2) / real (length [(''A'', [''B'']), (''B'', [''A''])])
     \<noteq> 1 / real (length [(''A'', [''B'']), (''B'', [''A''])]) \<and>
   1 / real (length [(''A'', [''B'']), (''B'', [''A''])]) = 1 / 2"
proof -
  let ?g = "[(''A'', [''B'']), (''B'', [''A''])]"
  have inv: "graph_inv ?g" by (simp add: graph_inv_def keys_def)
  note inst = iterate_pagerank_initial_ranks [OF inv, of "1 / 2"]
  have pr: "(1 - 1 / 2) / real (length ?g) = 1 / 4" "1 / real (length ?g) = 1 / 2" by simp_all
  have t4: "tab (\<lambda>p. 1 / 4 :: real) (keys ?g) = [(''A'', 1 / 4), (''B'', 1 / 4)]"
    by (simp add: tab_def keys_def)
  have "init_dict ?g ((1 - 1 / 2) / real (length ?g))
          = tab (\<lambda>p. (1 - 1 / 2) / real (length ?g)) (keys ?g)"
    by (rule inst [THEN conjunct1])
  then have i: "init_dict ?g ((1 - 1 / 2) / real (length ?g)) = [(''A'', 1 / 4), (''B'', 1 / 4)]"
    unfolding pr t4 by (simp add: pr)
  have "iterate_pagerank ?g (1 / 2)
          = iterate_loop ?g (1 / 2) ((1 - 1 / 2) / real (length ?g)) (1 / real (length ?g))
              (tab (\<lambda>p. (1 - 1 / 2) / real (length ?g)) (keys ?g))"
    by (rule inst [THEN conjunct2, THEN conjunct1])
  then have l: "iterate_pagerank ?g (1 / 2)
          = iterate_loop ?g (1 / 2) (1 / 4) (1 / 2) [(''A'', 1 / 4), (''B'', 1 / 4)]"
    unfolding pr t4 .
  have "(1 - 1 / 2) / real (length ?g) = 1 / real (length ?g) \<longleftrightarrow> (1 / 2 :: real) = 0"
    by (rule inst [THEN conjunct2, THEN conjunct2])
  then have n: "(1 - 1 / 2) / real (length ?g) \<noteq> 1 / real (length ?g)" by simp
  show ?thesis by (intro conjI inv i l n pr(2))
qed

section \<open>Termination of the iterative solver\<close>



section \<open>Normalisation of the ranks\<close>



section \<open>Malformed input\<close>

lemma divide_counts_zero: "d \<noteq> [] \<Longrightarrow> divide_counts d 0 = Inl ZeroDivisionError"
  by (cases d) (auto simp: truediv_def)

text \<open>
  Claim C5, as the code has it. Neither function validates its arguments and neither
  signals an InvalidArgument condition. An empty graph makes \<open>iterate_pagerank\<close> raise
  ZeroDivisionError (line 131) and \<open>sample_pagerank\<close> raise IndexError (line 95); on a
  graph satisfying the Graph invariants \<open>n = 0\<close> makes \<open>sample_pagerank\<close> raise
  ZeroDivisionError (line 113), while \<open>n < 0\<close> returns the table that gives the start
  page \<open>1 / n\<close> and every other page \<open>0\<close>; the damping factor is never checked: for
  \<open>n \<ge> 1\<close> \<open>sample_pagerank\<close> returns a table whatever its value, and on the
  two-page cycle \<open>iterate_pagerank\<close> returns the table \<open>1/2, 1/2\<close> for the damping
  factor \<open>3/2\<close> and for the damping factor \<open>-1/2\<close>.
\<close>

theorem malformed_input_unchecked:
  "iterate_pagerank [] damping = Some (Inl ZeroDivisionError) \<and>
   sample_pagerank fadd [] damping n r rand = Inl IndexError \<and>
   (graph_inv corpus \<longrightarrow> sample_pagerank fadd corpus damping 0 r rand = Inl ZeroDivisionError) \<and>
   (graph_inv corpus \<and> n < 0 \<longrightarrow>
      (\<exists>start \<in> set (keys corpus).
         sample_pagerank fadd corpus damping n r rand
           = Inr (tab (\<lambda>k. if k = start then 1 / real_of_int n else 0) (keys corpus)))) \<and>
   (graph_inv corpus \<and> 1 \<le> n \<longrightarrow> (\<exists>t. sample_pagerank fadd corpus damping n r rand = Inr t)) \<and>
   iterate_pagerank [(''A'', [''B'']), (''B'', [''A''])] (3 / 2)
     = Some (Inr [(''A'', 1 / 2), (''B'', 1 / 2)]) \<and>
   iterate_pagerank [(''A'', [''B'']), (''B'', [''A''])] (- (1 / 2))
     = Some (Inr [(''A'', 1 / 2), (''B'', 1 / 2)])"
proof (intro conjI impI)
  show "iterate_pagerank [(''A'', [''B'']), (''B'', [''A''])] (3 / 2)
     = Some (Inr [(''A'', 1 / 2), (''B'', 1 / 2)])"
    by (rule two_cycle_run_above)
next
  show "iterate_pagerank [(''A'', [''B'']), (''B'', [''A''])] (- (1 / 2))
     = Some (Inr [(''A'', 1 / 2), (''B'', 1 / 2)])"
    by (rule two_cycle_run_below)
next
  show "iterate_pagerank [] damping = Some (Inl ZeroDivisionError)"
    by (simp add: iterate_pagerank_def truediv_def)
next
  show "sample_pagerank fadd [] damping n r rand = Inl IndexError"
    by (simp add: sample_pagerank_def sample_counts_def sample_init_def init_dict_def keys_def
        choice_def)
next
  assume inv: "graph_inv corpus"
  obtain start where "sample_init corpus r = Inr (start, tab ((\<lambda>k. 0)(start := 1)) (keys corpus))"
    using sample_init_ok [OF inv] by blast
  moreover have "tab ((\<lambda>k. 0::int)(start := 1)) (keys corpus) \<noteq> []"
    using graph_inv_length [OF inv] by (auto simp: tab_def keys_def)
  ultimately show "sample_pagerank fadd corpus damping 0 r rand = Inl ZeroDivisionError"
    by (simp add: sample_pagerank_def sample_counts_def divide_counts_zero)
next
  assume "graph_inv corpus \<and> n < 0"
  then have inv: "graph_inv corpus" and neg: "n < 0" by simp_all
  obtain start where start: "start \<in> set (keys corpus)"
    "sample_init corpus r = Inr (start, tab ((\<lambda>k. 0)(start := 1)) (keys corpus))"
    using sample_init_ok [OF inv] by blast
  have "sample_pagerank fadd corpus damping n r rand
          = Inr (tab (\<lambda>k. real_of_int (((\<lambda>k. 0)(start := 1)) k) / real_of_int n) (keys corpus))"
    using start(2) neg by (simp add: sample_pagerank_def sample_counts_def divide_counts_tab)
  also have "tab (\<lambda>k. real_of_int (((\<lambda>k. 0)(start := 1)) k) / real_of_int n) (keys corpus)
             = tab (\<lambda>k. if k = start then 1 / real_of_int n else 0) (keys corpus)"
    by (rule tab_cong) simp
  finally show "\<exists>start \<in> set (keys corpus).
         sample_pagerank fadd corpus damping n r rand
           = Inr (tab (\<lambda>k. if k = start then 1 / real_of_int n else 0) (keys corpus))"
    using start(1) by (intro bexI [of _ start])
next
  assume "graph_inv corpus \<and> 1 \<le> n"
  then have inv: "graph_inv corpus" and pos: "1 \<le> n" by simp_all
  obtain start where start: "start \<in> set (keys corpus)"
    "sample_init corpus r = Inr (start, tab ((\<lambda>k. 0)(start := 1)) (keys corpus))"
    using sample_init_ok [OF inv] by blast
  obtain cur c where
    "for_loop (sample_step fadd corpus damping rand) [0..<nat (n - 1)]
       (start, tab ((\<lambda>k. 0)(start := 1)) (keys corpus)) = Inr (cur, tab c (keys corpus))"
    using sample_walk_ok [OF inv start(1)] by blast
  then show "\<exists>t. sample_pagerank fadd corpus damping n r rand = Inr t"
    using start(2) pos by (simp add: sample_pagerank_def sample_counts_def divide_counts_tab)
qed

theorem malformed_input_unchecked_witness:
  "graph_inv [(''A'', [''B'']), (''B'', [''A''])] \<and>
   sample_pagerank (+) [(''A'', [''B'']), (''B'', [''A''])] (1 / 2) 0 0 (fixed_draws 0)
     = Inl ZeroDivisionError \<and>
   (- 2 :: int) < 0 \<and>
   (\<exists>start \<in> set (keys [(''A'', [''B'']), (''B'', [''A''])]).
      sample_pagerank (+) [(''A'', [''B'']), (''B'', [''A''])] (1 / 2) (- 2) 0 (fixed_draws 0)
        = Inr (tab (\<lambda>k. if k = start then 1 / real_of_int (- 2) else 0)
                 (keys [(''A'', [''B'']), (''B'', [''A''])]))) \<and>
   (1 :: int) \<le> 2 \<and>
   (\<exists>t. sample_pagerank (+) [(''A'', [''B'']), (''B'', [''A''])] 3 2 0 (fixed_draws 0) = Inr t) \<and>
   sample_pagerank (+) [(''A'', [''B'']), (''B'', [''A''])] 3 2 0 (fixed_draws 0)
     = Inr [(''A'', 1 / 2), (''B'', 1 / 2)]"
proof -
  let ?g = "[(''A'', [''B'']), (''B'', [''A''])]"
  have inv: "graph_inv ?g" by (simp add: graph_inv_def keys_def)
  have neg2: "(- 2 :: int) < 0" and le2: "(1 :: int) \<le> 2" by simp_all
  have zero: "sample_pagerank (+) ?g (1 / 2) 0 0 (fixed_draws 0) = Inl ZeroDivisionError"
    using malformed_input_unchecked [of "1 / 2" "(+)" 0 0 "fixed_draws 0" ?g] inv by simp
  have neg: "\<exists>start \<in> set (keys ?g).
      sample_pagerank (+) ?g (1 / 2) (- 2) 0 (fixed_draws 0)
        = Inr (tab (\<lambda>k. if k = start then 1 / real_of_int (- 2) else 0) (keys ?g))"
    using malformed_input_unchecked [of "1 / 2" "(+)" "- 2" 0 "fixed_draws 0" ?g] inv neg2 by simp
  have big: "\<exists>t. sample_pagerank (+) ?g 3 2 0 (fixed_draws 0) = Inr t"
    using malformed_input_unchecked [of 3 "(+)" 2 0 "fixed_draws 0" ?g] inv le2 by simp
  have init: "sample_init ?g 0 = Inr (''A'', [(''A'', 1), (''B'', 0)])"
    by (simp add: sample_init_def init_dict_def keys_def choice_def iadd_def)
  have tm: "transition_model ?g ''A'' 3 = Inr [(''A'', - 1), (''B'', 2)]"
    by (simp add: transition_model_def init_dict_def keys_def iadd_def truediv_def)
  have s0: "sample_step (+) ?g 3 (fixed_draws 0) 0 (''A'', [(''A'', 1), (''B'', 0)])
              = Inr (''B'', [(''A'', 1), (''B'', 1)])"
    by (simp add: sample_step_def tm fixed_draws_def iadd_def Let_def)
  have cnt: "sample_counts (+) ?g 3 2 0 (fixed_draws 0) = Inr (''B'', [(''A'', 1), (''B'', 1)])"
    by (simp add: sample_counts_def init s0)
  have big': "sample_pagerank (+) ?g 3 2 0 (fixed_draws 0) = Inr [(''A'', 1 / 2), (''B'', 1 / 2)]"
    by (simp add: sample_pagerank_def cnt truediv_def)
  show ?thesis by (intro conjI inv zero neg2 neg le2 big big')
qed

text \<open>
  The claim as stated fails: for the malformed sample count \<open>n = -2\<close> a rank table
  with a negative entry is returned and nothing is signalled.
\<close>

theorem malformed_input_counterexample:
  "sample_pagerank (+) [(''A'', [''B'']), (''B'', [''A''])] (1 / 2) (- 2) 0 (fixed_draws 0)
     = Inr [(''A'', - 1 / 2), (''B'', 0)]"
proof -
  let ?g = "[(''A'', [''B'']), (''B'', [''A''])]"
  have init: "sample_init ?g 0 = Inr (''A'', [(''A'', 1), (''B'', 0)])"
    by (simp add: sample_init_def init_dict_def keys_def choice_def iadd_def)
  have cnt: "sample_counts (+) ?g (1 / 2) (- 2) 0 (fixed_draws 0) = Inr (''A'', [(''A'', 1), (''B'', 0)])"
    by (simp add: sample_counts_def init)
  show ?thesis
    by (simp add: sample_pagerank_def cnt truediv_def)
qed

end
